theory Spec2Isabelle
  imports Main "HOL-Library.Sublist"
begin

section \<open>JavaScript values\<close>

text \<open>
  Shield rules, Prisma filters and query arguments are plain JavaScript values. Objects
  are association lists in property enumeration order; numbers are restricted to integers.
\<close>

datatype jsval =
    JUndefined
  | JNull
  | JBool bool
  | JNum int
  | JStr string
  | JArr "jsval list"
  | JObj "(string \<times> jsval) list"

text \<open>JavaScript truthiness, as used by \<^verbatim>\<open>!x\<close> and \<^verbatim>\<open>if (x)\<close>.\<close>

fun truthy :: "jsval \<Rightarrow> bool" where
  "truthy JUndefined = False"
| "truthy JNull = False"
| "truthy (JBool b) = b"
| "truthy (JNum n) = (n \<noteq> 0)"
| "truthy (JStr s) = (s \<noteq> [])"
| "truthy (JArr xs) = True"
| "truthy (JObj kvs) = True"

section \<open>The authorization engine: \<^verbatim>\<open>getAuthorization\<close>\<close>

text \<open>
  A shield rule's \<^verbatim>\<open>reason\<close> is a string or a function returning a string; the
  function is represented by the string it returns.
\<close>

datatype Reason = ReasonString string | ReasonFunction string

text \<open>
  A shield rule is a boolean or an object \<^verbatim>\<open>{ rule, reason? }\<close>. A missing
  \<^verbatim>\<open>rule\<close> property reads as \<open>JUndefined\<close>, a missing \<^verbatim>\<open>reason\<close> as \<open>None\<close>.
\<close>

datatype ShieldRule = RuleBoolean bool | RuleObject jsval "Reason option"

text \<open>
  The shield is an object keyed by glob patterns; the list holds its properties in the
  order \<^verbatim>\<open>for (const globPattern in shield)\<close> enumerates them, which is the order of
  insertion for keys that are not array indices.
\<close>

type_synonym Shield = "(string \<times> ShieldRule) list"

text \<open>
  The decision. \<^verbatim>\<open>null\<close> is \<open>None\<close> for the reason and the matcher and \<open>JNull\<close> for the filter.
\<close>

record Authorization =
  canAccess :: bool
  reason :: "Reason option"
  prismaFilter :: jsval
  matcher :: "string option"

definition initialAuthorization :: Authorization where
  "initialAuthorization =
     \<lparr> canAccess = True, reason = None, prismaFilter = JNull, matcher = None \<rparr>"

text \<open>
  The body of \<^verbatim>\<open>if (micromatch.isMatch(path, globPattern)) { ... }\<close>. The library
  function \<^verbatim>\<open>merge\<close> of lodash is the parameter \<open>merge\<close>, applied as
  \<^verbatim>\<open>merge({}, authorization.prismaFilter, shieldRule.rule)\<close>.
\<close>

definition applyRule ::
  "(jsval \<Rightarrow> jsval \<Rightarrow> jsval \<Rightarrow> jsval) \<Rightarrow> string \<Rightarrow> ShieldRule \<Rightarrow> Authorization \<Rightarrow> Authorization"
where
  "applyRule merge globPattern shieldRule a =
     (let a1 =
        (case shieldRule of
           RuleBoolean b \<Rightarrow> a\<lparr>canAccess := b\<rparr>
         | RuleObject r rs \<Rightarrow>
             (case r of
                JBool b \<Rightarrow> a\<lparr>canAccess := b\<rparr>
              | _ \<Rightarrow>
                  a\<lparr>canAccess := True,
                    prismaFilter :=
                      merge (JObj [])
                        (if \<not> truthy (prismaFilter a) then JObj [] else prismaFilter a) r\<rparr>))
      in a1\<lparr>matcher := Some globPattern,
            reason :=
              (case shieldRule of
                 RuleObject r (Some rs) \<Rightarrow> Some rs
               | _ \<Rightarrow> Some (ReasonString (''Matcher: '' @ globPattern)))\<rparr>)"

text \<open>
  The inner loop over the shield's entries, for one path. The library function
  \<^verbatim>\<open>micromatch.isMatch\<close> is the parameter \<open>isMatch\<close>.
\<close>

fun shieldLoop ::
  "(string \<Rightarrow> string \<Rightarrow> bool) \<Rightarrow> (jsval \<Rightarrow> jsval \<Rightarrow> jsval \<Rightarrow> jsval) \<Rightarrow> string \<Rightarrow> Shield
     \<Rightarrow> Authorization \<Rightarrow> Authorization"
where
  "shieldLoop isMatch merge path [] a = a"
| "shieldLoop isMatch merge path ((globPattern, shieldRule) # rest) a =
     shieldLoop isMatch merge path rest
       (if isMatch path globPattern then applyRule merge globPattern shieldRule a else a)"

text \<open>
  The outer loop \<^verbatim>\<open>for (let i = paths.length - 1; i >= 0; i--)\<close>; the counter is
  \<open>i + 1\<close>, so that \<open>0\<close> ends the loop.
\<close>

fun pathsLoop ::
  "(string \<Rightarrow> string \<Rightarrow> bool) \<Rightarrow> (jsval \<Rightarrow> jsval \<Rightarrow> jsval \<Rightarrow> jsval) \<Rightarrow> Shield \<Rightarrow> string list
     \<Rightarrow> nat \<Rightarrow> Authorization \<Rightarrow> Authorization"
where
  "pathsLoop isMatch merge shield paths 0 a = a"
| "pathsLoop isMatch merge shield paths (Suc i) a =
     pathsLoop isMatch merge shield paths i (shieldLoop isMatch merge (paths ! i) shield a)"

text \<open>
  \<^verbatim>\<open>getAuthorization({ shield, paths })\<close>: both loops, from the initial decision.
\<close>

definition getAuthorization ::
  "(string \<Rightarrow> string \<Rightarrow> bool) \<Rightarrow> (jsval \<Rightarrow> jsval \<Rightarrow> jsval \<Rightarrow> jsval) \<Rightarrow> Shield \<Rightarrow> string list
     \<Rightarrow> Authorization"
where
  "getAuthorization isMatch merge shield paths =
     pathsLoop isMatch merge shield paths (length paths) initialAuthorization"

subsection \<open>The scan as a list of matches\<close>

text \<open>
  The entries of the shield whose glob pattern matches a path, in the shield's order, and
  the matches of the whole scan: the paths from the last to the first, each with its
  matching entries.
\<close>

definition matches :: "(string \<Rightarrow> string \<Rightarrow> bool) \<Rightarrow> Shield \<Rightarrow> string \<Rightarrow> Shield" where
  "matches isMatch shield path =
     filter (\<lambda>(globPattern, shieldRule). isMatch path globPattern) shield"

definition scan :: "(string \<Rightarrow> string \<Rightarrow> bool) \<Rightarrow> Shield \<Rightarrow> string list \<Rightarrow> Shield" where
  "scan isMatch shield paths = concat (map (matches isMatch shield) (rev paths))"

definition applyAll ::
  "(jsval \<Rightarrow> jsval \<Rightarrow> jsval \<Rightarrow> jsval) \<Rightarrow> Authorization \<Rightarrow> Shield \<Rightarrow> Authorization" where
  "applyAll merge a ms = foldl (\<lambda>a (g, r). applyRule merge g r a) a ms"

text \<open>What one match sets: the access flag and the reason.\<close>

fun ruleAccess :: "ShieldRule \<Rightarrow> bool" where
  "ruleAccess (RuleBoolean b) = b"
| "ruleAccess (RuleObject (JBool b) rs) = b"
| "ruleAccess (RuleObject r rs) = True"

fun ruleReason :: "string \<Rightarrow> ShieldRule \<Rightarrow> Reason" where
  "ruleReason globPattern (RuleObject r (Some rs)) = rs"
| "ruleReason globPattern shieldRule = ReasonString (''Matcher: '' @ globPattern)"

text \<open>The filter tree of a rule: its \<^verbatim>\<open>rule\<close> property when that is not a boolean.\<close>

fun ruleFilter :: "ShieldRule \<Rightarrow> jsval option" where
  "ruleFilter (RuleBoolean b) = None"
| "ruleFilter (RuleObject (JBool b) rs) = None"
| "ruleFilter (RuleObject r rs) = Some r"

definition filtersOf :: "Shield \<Rightarrow> jsval list" where
  "filtersOf ms = List.map_filter (\<lambda>(g, r). ruleFilter r) ms"

text \<open>The filters merged one after the other, as the engine merges them.\<close>

definition mergeAll :: "(jsval \<Rightarrow> jsval \<Rightarrow> jsval \<Rightarrow> jsval) \<Rightarrow> jsval list \<Rightarrow> jsval" where
  "mergeAll merge fs = foldl (\<lambda>acc f. merge (JObj []) acc f) (JObj []) fs"

subsection \<open>Stand-ins for the library functions, for evaluating examples\<close>

text \<open>
  A glob matcher for the patterns of the examples: literal characters and \<^verbatim>\<open>*\<close>,
  which stands for any run of characters other than \<^verbatim>\<open>/\<close>.
\<close>

fun globMatch :: "string \<Rightarrow> string \<Rightarrow> bool" where
  "globMatch [] s = (s = [])"
| "globMatch (p # ps) s =
     (if p = CHR ''*''
      then (globMatch ps s \<or>
            (case s of [] \<Rightarrow> False | c # cs \<Rightarrow> c \<noteq> CHR ''/'' \<and> globMatch (p # ps) cs))
      else (case s of [] \<Rightarrow> False | c # cs \<Rightarrow> c = p \<and> globMatch ps cs))"

definition isMatchGlob :: "string \<Rightarrow> string \<Rightarrow> bool" where
  "isMatchGlob path globPattern = globMatch globPattern path"

text \<open>
  A recursive merge of plain objects: a property of the source is merged into the
  destination's property of the same name when both are objects, and assigned otherwise.
\<close>

fun assignValue :: "string \<Rightarrow> jsval \<Rightarrow> (string \<times> jsval) list \<Rightarrow> (string \<times> jsval) list" where
  "assignValue k v [] = [(k, v)]"
| "assignValue k v ((k', v') # kvs) =
     (if k' = k then (k, v) # kvs else (k', v') # assignValue k v kvs)"

function (sequential) mergeInto ::
  "(string \<times> jsval) list \<Rightarrow> (string \<times> jsval) list \<Rightarrow> (string \<times> jsval) list" where
  "mergeInto obj [] = obj"
| "mergeInto obj ((k, JObj s) # src) =
     mergeInto
       (assignValue k
          (JObj (mergeInto (case map_of obj k of Some (JObj t) \<Rightarrow> t | _ \<Rightarrow> []) s)) obj)
       src"
| "mergeInto obj ((k, v) # src) = mergeInto (assignValue k v obj) src"
  by pat_completeness auto
termination
  by (relation "measure (\<lambda>(obj, src). size (JObj src))") auto

fun props :: "jsval \<Rightarrow> (string \<times> jsval) list" where
  "props (JObj kvs) = kvs"
| "props v = []"

definition mergeObjects :: "jsval \<Rightarrow> jsval \<Rightarrow> jsval \<Rightarrow> jsval" where
  "mergeObjects target a b = JObj (mergeInto (mergeInto (props target) (props a)) (props b))"

section \<open>The client: \<^verbatim>\<open>PrismaAppSync\<close>\<close>

text \<open>
  The error types that \<^verbatim>\<open>resolve\<close> gives to \<^verbatim>\<open>CustomError\<close>.
\<close>

datatype ErrorType = FORBIDDEN | INTERNAL_SERVER_ERROR

text \<open>
  What the code throws: a \<^verbatim>\<open>CustomError\<close> with its message and type, the
  \<^verbatim>\<open>TypeError\<close> of the JavaScript runtime, or whatever a collaborator throws.
\<close>

datatype Error = CustomError string ErrorType | TypeError | Thrown string

subsection \<open>The middleware that combines the shield's filter with the query\<close>

text \<open>
  Reading the property \<^verbatim>\<open>length\<close> of a value: strings and arrays have one, an object
  has the one it defines, \<^verbatim>\<open>null\<close> and \<^verbatim>\<open>undefined\<close> throw.
\<close>

fun getLength :: "jsval \<Rightarrow> Error + jsval" where
  "getLength JUndefined = Inl TypeError"
| "getLength JNull = Inl TypeError"
| "getLength (JBool b) = Inr JUndefined"
| "getLength (JNum n) = Inr JUndefined"
| "getLength (JStr s) = Inr (JNum (int (length s)))"
| "getLength (JArr xs) = Inr (JNum (int (length xs)))"
| "getLength (JObj kvs) = Inr (case map_of kvs ''length'' of None \<Rightarrow> JUndefined | Some v \<Rightarrow> v)"

text \<open>
  The comparison \<^verbatim>\<open>v > 0\<close>. \<^verbatim>\<open>undefined\<close> converts to NaN and \<^verbatim>\<open>null\<close> to 0, so
  both compare false. The conversion of strings, arrays and objects to numbers is the
  parameter \<open>positive\<close>.
\<close>

fun greaterThanZero :: "(jsval \<Rightarrow> bool) \<Rightarrow> jsval \<Rightarrow> bool" where
  "greaterThanZero positive JUndefined = False"
| "greaterThanZero positive JNull = False"
| "greaterThanZero positive (JBool b) = b"
| "greaterThanZero positive (JNum n) = (0 < n)"
| "greaterThanZero positive v = positive v"

text \<open>
  The function given to \<^verbatim>\<open>prismaClient.$use\<close>: from \<^verbatim>\<open>params.args.where\<close>
  (\<open>JUndefined\<close> when absent) to the \<^verbatim>\<open>where\<close> handed to \<^verbatim>\<open>next\<close>.
\<close>

definition prismaFilterMiddleware :: "(jsval \<Rightarrow> bool) \<Rightarrow> jsval \<Rightarrow> jsval \<Rightarrow> Error + jsval" where
  "prismaFilterMiddleware positive shieldFilter whereArg =
     (if whereArg \<noteq> JUndefined then
        (case getLength whereArg of
           Inl e \<Rightarrow> Inl e
         | Inr len \<Rightarrow>
             if greaterThanZero positive len
             then Inr (JObj [(''AND'', JArr [whereArg, shieldFilter])])
             else Inr shieldFilter)
      else Inr shieldFilter)"

subsection \<open>Numbers in messages\<close>

text \<open>
  A number in a template literal: its decimal digits.
\<close>

function showNat :: "nat \<Rightarrow> string" where
  "showNat n = (if n < 10 then [''0123456789'' ! n] else showNat (n div 10) @ [''0123456789'' ! (n mod 10)])"
  by pat_completeness auto
termination
  by (relation "measure id") auto

definition showInt :: "int \<Rightarrow> string" where
  "showInt i = (if i < 0 then ''-'' @ showNat (nat (- i)) else showNat (nat i))"

subsection \<open>The constructor's options\<close>

text \<open>
  The constructor's argument; every option may be absent.
\<close>

record PrismaAppSyncOptionsType =
  connectionString_opt :: "string option"
  sanitize_opt :: "bool option"
  debug_opt :: "bool option"
  defaultPagination_opt :: "nat option option"
  maxDepth_opt :: "int option"

text \<open>\<^verbatim>\<open>defaultPagination: number | false\<close>: \<open>None\<close> is \<^verbatim>\<open>false\<close>.\<close>

record Options =
  connectionString :: string
  sanitize :: bool
  debug :: bool
  defaultPagination :: "nat option"
  maxDepth :: int

text \<open>
  The assignment of \<^verbatim>\<open>this.options\<close> in the constructor (without the generated
  configuration); \<open>databaseUrl\<close> is \<^verbatim>\<open>String(process.env.DATABASE_URL)\<close>.
\<close>

definition constructorOptions :: "string \<Rightarrow> PrismaAppSyncOptionsType option \<Rightarrow> Options" where
  "constructorOptions databaseUrl opts =
     \<lparr> connectionString =
         (case Option.bind opts connectionString_opt of Some c \<Rightarrow> c | None \<Rightarrow> databaseUrl),
       sanitize = (case Option.bind opts sanitize_opt of Some b \<Rightarrow> b | None \<Rightarrow> True),
       debug = (case Option.bind opts debug_opt of Some b \<Rightarrow> b | None \<Rightarrow> True),
       defaultPagination =
         (case Option.bind opts defaultPagination_opt of Some p \<Rightarrow> p | None \<Rightarrow> Some 50),
       maxDepth = (case Option.bind opts maxDepth_opt of Some d \<Rightarrow> d | None \<Rightarrow> 3) \<rparr>"

subsection \<open>\<^verbatim>\<open>resolve\<close>\<close>

text \<open>
  The fields \<open>ctx\<close> and \<open>actionAlias\<close> are the source's \<^verbatim>\<open>context\<close> and
  \<^verbatim>\<open>alias\<close>.
\<close>

record Context =
  action :: string
  actionAlias :: string
  model :: "string option"

record QueryParams =
  operation :: string
  ctx :: Context
  paths :: "string list"
  prismaArgs :: jsval

text \<open>
  The Prisma client, as far as \<^verbatim>\<open>resolve\<close> changes it: the middlewares registered with
  \<^verbatim>\<open>$use\<close>, each given by the filter it holds.
\<close>

type_synonym PrismaClient = "jsval list"

text \<open>
  The caller's functions (the shield, the custom resolvers) and the built-in queries run
  outside this code; \<open>'w\<close> is the state they read and change.
\<close>

datatype ('w, 'r) Resolver =
    ResolverBoolean bool
  | ResolverFunction "QueryParams \<Rightarrow> 'w \<Rightarrow> (Error + 'r) \<times> 'w"

record ('ev, 'w, 'r) ResolveParams =
  event :: 'ev
  resolvers :: "(string \<Rightarrow> ('w, 'r) Resolver option) option"
  shield :: "(QueryParams \<Rightarrow> 'w \<Rightarrow> (Error + Shield) \<times> 'w) option"

text \<open>
  The functions \<^verbatim>\<open>resolve\<close> takes from the modules \<^verbatim>\<open>adapter\<close>, \<^verbatim>\<open>guard\<close>,
  \<^verbatim>\<open>utils\<close>, \<^verbatim>\<open>resolver\<close> and \<^verbatim>\<open>inspector\<close>, taken as parameters. A name that
  \<^verbatim>\<open>queries\<close> does not export reads as \<open>None\<close>.
\<close>

record ('ev, 'w, 'r, 'e) Imports =
  parseEvent ::
    "'ev \<Rightarrow> Options \<Rightarrow> (string \<Rightarrow> ('w, 'r) Resolver option) option \<Rightarrow> Error + QueryParams"
  getDepth :: "string list \<Rightarrow> Context \<Rightarrow> int"
  getShieldAuthorization :: "Shield \<Rightarrow> string list \<Rightarrow> Authorization"
  isEmpty :: "string option \<Rightarrow> bool"
  queries :: "string \<Rightarrow> (PrismaClient \<Rightarrow> QueryParams \<Rightarrow> 'w \<Rightarrow> (Error + 'r) \<times> 'w) option"
  parseError :: "Error \<Rightarrow> 'e"

datatype 'r Results = TestingResults QueryParams | QueryResults 'r

text \<open>The resolver stage: the chain of \<^verbatim>\<open>if\<close>s that ends the \<^verbatim>\<open>try\<close> block.\<close>

definition runResolver ::
  "('ev, 'w, 'r, 'e) Imports \<Rightarrow> bool \<Rightarrow> ('ev, 'w, 'r) ResolveParams \<Rightarrow> QueryParams
     \<Rightarrow> PrismaClient \<Rightarrow> 'w \<Rightarrow> (Error + 'r Results) \<times> 'w"
where
  "runResolver im testing resolveParams qp prismaClient w =
     (let custom = Option.bind (resolvers resolveParams) (\<lambda>rs. rs (operation qp)) in
      if testing then (Inr (TestingResults qp), w)
      else if custom = Some (ResolverBoolean False) then
        (Inl (CustomError (''Query resolver for '' @ operation qp @ '' is disabled.'') FORBIDDEN), w)
      else
        (case custom of
           Some (ResolverFunction f) \<Rightarrow>
             (case f qp w of (Inl e, w') \<Rightarrow> (Inl e, w') | (Inr r, w') \<Rightarrow> (Inr (QueryResults r), w'))
         | _ \<Rightarrow>
             if \<not> isEmpty im (model (ctx qp)) then
               (case queries im (action (ctx qp) @ ''Query'') of
                  None \<Rightarrow> (Inl TypeError, w)
                | Some q \<Rightarrow>
                    (case q prismaClient qp w of
                       (Inl e, w') \<Rightarrow> (Inl e, w')
                     | (Inr r, w') \<Rightarrow> (Inr (QueryResults r), w')))
             else
               (Inl (CustomError (''Query resolver for '' @ operation qp @ '' could not be found.'')
                      INTERNAL_SERVER_ERROR), w)))"

text \<open>
  \<^verbatim>\<open>resolve\<close>: the result (\<open>Inl\<close> is the rejected promise), the client and the outer
  state after the call. Logging is left out.
\<close>

definition resolve ::
  "('ev, 'w, 'r, 'e) Imports \<Rightarrow> Options \<Rightarrow> bool \<Rightarrow> ('ev, 'w, 'r) ResolveParams
     \<Rightarrow> PrismaClient \<Rightarrow> 'w \<Rightarrow> ('e + 'r Results) \<times> PrismaClient \<times> 'w"
where
  "resolve im options testing resolveParams prismaClient w =
     (case parseEvent im (event resolveParams) options (resolvers resolveParams) of
        Inl e \<Rightarrow> (Inl (parseError im e), prismaClient, w)
      | Inr qp \<Rightarrow>
          let depth = getDepth im (paths qp) (ctx qp) in
          if depth > maxDepth options then
            (Inl (parseError im
                    (CustomError
                       (''Query has depth of '' @ showInt depth @ '', which exceeds max depth of ''
                          @ showInt (maxDepth options) @ ''.'')
                       FORBIDDEN)),
             prismaClient, w)
          else
            (case (case shield resolveParams of Some f \<Rightarrow> f qp w | None \<Rightarrow> (Inr [], w)) of
               (Inl e, w1) \<Rightarrow> (Inl (parseError im e), prismaClient, w1)
             | (Inr sh, w1) \<Rightarrow>
                 let shieldAuth = getShieldAuthorization im sh (paths qp) in
                 if \<not> canAccess shieldAuth then
                   (case reason shieldAuth of
                      None \<Rightarrow> (Inl (parseError im TypeError), prismaClient, w1)
                    | Some (ReasonString s) \<Rightarrow>
                        (Inl (parseError im (CustomError s FORBIDDEN)), prismaClient, w1)
                    | Some (ReasonFunction s) \<Rightarrow>
                        (Inl (parseError im (CustomError s FORBIDDEN)), prismaClient, w1))
                 else
                   let prismaClient1 =
                         (if truthy (prismaFilter shieldAuth)
                          then prismaClient @ [prismaFilter shieldAuth] else prismaClient)
                   in
                     (case runResolver im testing resolveParams qp prismaClient1 w1 of
                        (Inl e, w2) \<Rightarrow> (Inl (parseError im e), prismaClient1, w2)
                      | (Inr r, w2) \<Rightarrow> (Inr r, prismaClient1, w2))))"

subsection \<open>An example call\<close>

text \<open>
  A call for the examples: its parsed form, the imported functions and the caller's parameters.
\<close>

definition exampleQueryParams :: QueryParams where
  "exampleQueryParams =
     \<lparr> operation = ''getPost'',
       ctx = \<lparr> action = ''get'', actionAlias = ''access'', model = Some ''Post'' \<rparr>,
       paths = [''/get/post/comment/author/badges/label''],
       prismaArgs = JObj [] \<rparr>"

definition exampleImports :: "(unit, nat, unit, Error) Imports" where
  "exampleImports =
     \<lparr> parseEvent = (\<lambda>ev opts rs. Inr exampleQueryParams),
       getDepth = (\<lambda>ps c. 4),
       getShieldAuthorization = getAuthorization isMatchGlob mergeObjects,
       isEmpty = (\<lambda>m. m = None),
       queries = (\<lambda>name. None),
       parseError = (\<lambda>e. e) \<rparr>"

text \<open>A shield whose function counts its calls in the outer state.\<close>

definition exampleResolveParams :: "(unit, nat, unit) ResolveParams" where
  "exampleResolveParams =
     \<lparr> event = (), resolvers = None,
       shield = Some (\<lambda>qp w. (Inr [(''/get/post/*'', RuleBoolean False)], Suc w)) \<rparr>"

section \<open>The adapter: argument normalization and path generation\<close>

text \<open>
  Modelled from the spec: the closed set of actions of a call (section 3). The module \<^verbatim>\<open>defs\<close>
  that declares them is not in the sources.
\<close>

datatype Action =
    ActGet | ActList | ActCount | ActCreate | ActCreateMany
  | ActUpdate | ActUpdateMany | ActUpsert | ActDelete | ActDeleteMany

text \<open>
  Modelled from the spec: the name of an action, as the action vocabulary and the paths have it.
\<close>

fun actionName :: "Action \<Rightarrow> string" where
  "actionName ActGet = ''get''"
| "actionName ActList = ''list''"
| "actionName ActCount = ''count''"
| "actionName ActCreate = ''create''"
| "actionName ActCreateMany = ''createMany''"
| "actionName ActUpdate = ''update''"
| "actionName ActUpdateMany = ''updateMany''"
| "actionName ActUpsert = ''upsert''"
| "actionName ActDelete = ''delete''"
| "actionName ActDeleteMany = ''deleteMany''"

text \<open>
  Modelled from the spec: an entry of the requested-fields list is a slash-joined path (section 4.2);
  this gives its segments, as \<^verbatim>\<open>split('/')\<close> does.
\<close>

fun splitPath :: "string \<Rightarrow> string list" where
  "splitPath [] = [[]]"
| "splitPath (c # cs) =
     (if c = CHR ''/'' then [] # splitPath cs
      else (case splitPath cs of [] \<Rightarrow> [[c]] | s # ss \<Rightarrow> (c # s) # ss))"

text \<open>
  Modelled from the spec: the paths of the spec's examples and of the repository's tests are in lower
  case (model \<^verbatim>\<open>Post\<close>, path \<^verbatim>\<open>/get/post/title\<close>). ASCII letters only.
\<close>

definition toLowerChar :: "char \<Rightarrow> char" where
  "toLowerChar c =
     (if (65::nat) \<le> of_char c \<and> of_char c \<le> (90::nat) then char_of (of_char c + (32::nat)) else c)"

text \<open>
  Modelled from the spec: a string in lower case.
\<close>

definition toLowerCase :: "string \<Rightarrow> string" where
  "toLowerCase s = map toLowerChar s"

text \<open>
  Modelled from the spec: the select tree, from a field name to \<^verbatim>\<open>true\<close> or to a nested select tree
  (section 3). \<open>Nested\<close> is Prisma's \<^verbatim>\<open>{ select: ... }\<close>.
\<close>

datatype SelectTree = Selected | Nested "(string \<times> SelectTree) list"

text \<open>
  Modelled from the spec: the distinct elements in the order of their first appearance, as the keys of
  an object filled by insertion.
\<close>

definition firstsOf :: "'a list \<Rightarrow> 'a list" where
  "firstsOf xs = rev (remdups (rev xs))"

text \<open>
  Modelled from the spec: the entries that have the field \<open>k\<close> as a prefix, without this first segment
  (section 4.2).
\<close>

definition subEntries :: "string \<Rightarrow> string list list \<Rightarrow> string list list" where
  "subEntries k es = filter (\<lambda>e. e \<noteq> []) (map tl (filter (\<lambda>e. e \<noteq> [] \<and> hd e = k) es))"

lemma subEntries_size:
  "subEntries k es \<noteq> [] \<Longrightarrow> sum_list (map length (subEntries k es)) < sum_list (map length es)"
proof (induction es)
  case Nil
  then show ?case by (simp add: subEntries_def)
next
  case (Cons e es)
  have le: "sum_list (map length (subEntries k es)) \<le> sum_list (map length es)" for es
    by (induction es) (auto simp: subEntries_def)
  show ?case
  proof (cases "e \<noteq> [] \<and> hd e = k \<and> tl e \<noteq> []")
    case True
    then have "subEntries k (e # es) = tl e # subEntries k es" by (simp add: subEntries_def)
    moreover have "length (tl e) < length e" using True by (cases e) auto
    ultimately show ?thesis using le[of es] by simp
  next
    case False
    then have eq: "subEntries k (e # es) = subEntries k es" by (auto simp: subEntries_def)
    with Cons show ?thesis by fastforce
  qed
qed

text \<open>
  Modelled from the spec: a field is in the select tree when it is a first-level segment of some entry;
  the entries that have it as a prefix become its nested tree, recursively (section 4.2).
  The adapter function that builds the tree is not in the sources.
\<close>

function buildSelect :: "string list list \<Rightarrow> (string \<times> SelectTree) list" where
  "buildSelect es =
     map (\<lambda>k. (k, if subEntries k es = [] then Selected else Nested (buildSelect (subEntries k es))))
       (firstsOf (map hd (filter (\<lambda>e. e \<noteq> []) es)))"
  by pat_completeness auto
termination
  by (relation "measure (\<lambda>es. sum_list (map length es))") (auto simp: subEntries_size)

declare buildSelect.simps [simp del]

text \<open>
  Modelled from the spec: the paths from the root of a select tree to its leaves; an empty tree has none
  (section 4.3).
\<close>

fun leaves :: "SelectTree \<Rightarrow> string list list" where
  "leaves Selected = [[]]"
| "leaves (Nested kvs) = concat (map (\<lambda>(k, t). map ((#) k) (leaves t)) kvs)"

text \<open>
  Modelled from the spec: the requested-fields list without the sentinel of the type-name meta-field,
  each entry split into its segments (section 6).
\<close>

definition requestedEntries :: "string list \<Rightarrow> string list list" where
  "requestedEntries selectionSetList = map splitPath (filter (\<lambda>f. f \<noteq> ''__typename'') selectionSetList)"

text \<open>
  Modelled from the spec: the first-level fields of a requested-fields list. \<^verbatim>\<open>getFields\<close> of the adapter
  is declared and tested in the repository, its code is not in the sources.
\<close>

definition getFields :: "string list \<Rightarrow> string list" where
  "getFields selectionSetList = firstsOf (map hd (requestedEntries selectionSetList))"

text \<open>
  Modelled from the spec: the select tree of a requested-fields list (section 4.2).
\<close>

definition getSelect :: "string list \<Rightarrow> (string \<times> SelectTree) list" where
  "getSelect selectionSetList = buildSelect (requestedEntries selectionSetList)"

subsection \<open>Arguments\<close>

text \<open>
  Modelled from the spec: the error kinds of section 7.
\<close>

datatype ErrorKind = CLASSIFICATION_ERROR | MALFORMED_ARGUMENT | DEPTH_EXCEEDED | ACCESS_DENIED

text \<open>
  Modelled from the spec: the raw arguments of a call (section 6), \<open>None\<close> when absent. An ordering
  entry is an object, given by its pairs of a field and a direction.
\<close>

record RawArguments =
  raw_where :: "jsval option"
  raw_data :: "jsval option"
  raw_orderBy :: "(string \<times> string) list list option"
  raw_skip :: "jsval option"
  raw_take :: "jsval option"
  raw_skipDuplicates :: "bool option"
  raw_selectionSetList :: "string list option"

text \<open>
  Modelled from the spec: the canonical query description (section 3); an absent key is \<open>None\<close>.
\<close>

record QueryArgs =
  qa_select :: "(string \<times> SelectTree) list option"
  qa_where :: "jsval option"
  qa_data :: "jsval option"
  qa_orderBy :: "(string \<times> string) list option"
  qa_skip :: "int option"
  qa_take :: "int option"
  qa_skipDuplicates :: "bool option"

text \<open>
  Modelled from the spec: each ordering entry must carry exactly one pair of a field and a direction,
  and the direction is put in lower case; any other entry is malformed (section 4.2).
\<close>

fun parseOrderBy :: "(string \<times> string) list list \<Rightarrow> ErrorKind + (string \<times> string) list" where
  "parseOrderBy [] = Inr []"
| "parseOrderBy ([(field, direction)] # rest) =
     (case parseOrderBy rest of
        Inl e \<Rightarrow> Inl e
      | Inr r \<Rightarrow> Inr ((field, toLowerCase direction) # r))"
| "parseOrderBy (entry # rest) = Inl MALFORMED_ARGUMENT"

text \<open>
  Modelled from the spec: the value of a decimal digit, for the coercion of numeric strings.
\<close>

definition digitValue :: "char \<Rightarrow> nat option" where
  "digitValue c =
     (if (48::nat) \<le> of_char c \<and> of_char c \<le> (57::nat) then Some (of_char c - 48) else None)"

text \<open>
  Modelled from the spec: the number that a string of decimal digits writes.
\<close>

fun digitsValue :: "nat \<Rightarrow> string \<Rightarrow> nat option" where
  "digitsValue acc [] = Some acc"
| "digitsValue acc (c # cs) =
     (case digitValue c of None \<Rightarrow> None | Some d \<Rightarrow> digitsValue (10 * acc + d) cs)"

text \<open>
  Modelled from the spec: \<^verbatim>\<open>skip\<close> and \<^verbatim>\<open>take\<close> are numbers or numeric strings, coerced to integers
  (sections 4.2 and 6): a number is kept, a string of decimal digits with or without a
  minus sign is read, nothing else is coercible.
\<close>

fun toInteger :: "jsval \<Rightarrow> int option" where
  "toInteger (JNum n) = Some n"
| "toInteger (JStr s) =
     (case s of
        [] \<Rightarrow> None
      | c # cs \<Rightarrow>
          if c = CHR ''-'' then (if cs = [] then None else map_option (\<lambda>n. - int n) (digitsValue 0 cs))
          else map_option int (digitsValue 0 s))"
| "toInteger v = None"

text \<open>
  Modelled from the spec: a given \<^verbatim>\<open>skip\<close> or \<^verbatim>\<open>take\<close> is coerced, and is malformed when it cannot be;
  an absent one takes its default when the action is read-many and a default pagination is
  configured (sections 4.2 and 8). As in section 8 and in the repository's tests, \<^verbatim>\<open>skip\<close>
  takes its default whether \<^verbatim>\<open>take\<close> is given or not.
\<close>

definition paginate :: "Action \<Rightarrow> nat option \<Rightarrow> jsval option \<Rightarrow> int \<Rightarrow> ErrorKind + int option" where
  "paginate a dp given dflt =
     (case given of
        Some v \<Rightarrow> (case toInteger v of None \<Rightarrow> Inl MALFORMED_ARGUMENT | Some n \<Rightarrow> Inr (Some n))
      | None \<Rightarrow> Inr (if a = ActList \<and> dp \<noteq> None then Some dflt else None))"

text \<open>
  Modelled from the spec: the argument normalizer (section 4.2). \<^verbatim>\<open>getArgs\<close> of the adapter is tested in
  the repository, its code is not in the sources. \<open>dp\<close> is the default pagination,
  \<open>None\<close> when it is disabled.
\<close>

definition getArgs :: "Action \<Rightarrow> nat option \<Rightarrow> RawArguments \<Rightarrow> ErrorKind + QueryArgs" where
  "getArgs a dp raw =
     (case (case raw_orderBy raw of None \<Rightarrow> Inr None | Some l \<Rightarrow> map_sum id Some (parseOrderBy l)) of
        Inl e \<Rightarrow> Inl e
      | Inr ob \<Rightarrow>
          (case paginate a dp (raw_skip raw) 0 of
             Inl e \<Rightarrow> Inl e
           | Inr sk \<Rightarrow>
               (case paginate a dp (raw_take raw) (case dp of Some n \<Rightarrow> int n | None \<Rightarrow> 0) of
                  Inl e \<Rightarrow> Inl e
                | Inr tk \<Rightarrow>
                    Inr \<lparr> qa_select = map_option getSelect (raw_selectionSetList raw),
                          qa_where = raw_where raw,
                          qa_data = raw_data raw,
                          qa_orderBy = ob,
                          qa_skip = sk,
                          qa_take = tk,
                          qa_skipDuplicates = raw_skipDuplicates raw \<rparr>)))"

text \<open>
  A call without arguments.
\<close>

definition noArguments :: RawArguments where
  "noArguments = \<lparr> raw_where = None, raw_data = None, raw_orderBy = None, raw_skip = None,
     raw_take = None, raw_skipDuplicates = None, raw_selectionSetList = None \<rparr>"

subsection \<open>Paths\<close>

text \<open>
  Modelled from the spec: the write actions (section 4.3).
\<close>

fun isWrite :: "Action \<Rightarrow> bool" where
  "isWrite ActGet = False"
| "isWrite ActList = False"
| "isWrite ActCount = False"
| "isWrite a = True"

text \<open>
  Modelled from the spec: the bulk mutations (section 4.3).
\<close>

fun isBulk :: "Action \<Rightarrow> bool" where
  "isBulk ActCreateMany = True"
| "isBulk ActUpdateMany = True"
| "isBulk ActDeleteMany = True"
| "isBulk a = False"

text \<open>
  Modelled from the spec: the read action of a mutation's result: the list action for a bulk mutation,
  the singular one for a single-record mutation (section 4.3).
\<close>

definition resultAction :: "Action \<Rightarrow> Action" where
  "resultAction a = (if isBulk a then ActList else ActGet)"

text \<open>
  Modelled from the spec: the path \<^verbatim>\<open>/<action>/<model>/<field>[/<subfield>...]\<close> (section 3), in lower case.
\<close>

definition pathString :: "Action \<Rightarrow> string \<Rightarrow> string list \<Rightarrow> string" where
  "pathString a m segments =
     toLowerCase (''/'' @ actionName a @ ''/'' @ m @ concat (map (\<lambda>s. ''/'' @ s) segments))"

text \<open>
  Modelled from the spec: the walk of the data payload (sections 4.3 and 6). A scalar written gives the
  path of field names to it. The key \<^verbatim>\<open>connect\<close> of a relation-connect sub-object gives no
  segment, so that the path is the relation field followed by the field that identifies the
  connected record. The objects of a batch are walked one after the other.
\<close>

fun dataLeaves :: "jsval \<Rightarrow> string list list" where
  "dataLeaves (JObj kvs) =
     concat (map (\<lambda>(k, v). if k = ''connect'' then dataLeaves v else map ((#) k) (dataLeaves v)) kvs)"
| "dataLeaves (JArr xs) = concat (map dataLeaves xs)"
| "dataLeaves v = [[]]"

text \<open>
  Modelled from the spec: the write-paths, from the data payload with the action itself (section 4.3).
\<close>

definition writePaths :: "Action \<Rightarrow> string \<Rightarrow> QueryArgs \<Rightarrow> string list" where
  "writePaths a m args =
     map (pathString a m) (case qa_data args of None \<Rightarrow> [] | Some d \<Rightarrow> dataLeaves d)"

text \<open>
  Modelled from the spec: the read-paths, one for each leaf of the select tree (section 4.3).
\<close>

definition readPaths :: "Action \<Rightarrow> string \<Rightarrow> QueryArgs \<Rightarrow> string list" where
  "readPaths a m args =
     map (pathString a m) (case qa_select args of None \<Rightarrow> [] | Some s \<Rightarrow> leaves (Nested s))"

text \<open>
  Modelled from the spec: the path generator (section 4.3): for a write action the write-paths and then
  the read-paths with the read action of the result; for a read action the read-paths alone.
  \<^verbatim>\<open>getPaths\<close> of the adapter is declared and tested in the repository, its code is not in the
  sources.
\<close>

definition getPaths :: "Action \<Rightarrow> string \<Rightarrow> QueryArgs \<Rightarrow> string list" where
  "getPaths a m args =
     (if isWrite a then writePaths a m args @ readPaths (resultAction a) m args
      else readPaths a m args)"

subsection \<open>Notions used to state the properties\<close>

text \<open>
  The paths from the root of a select tree to each of its nodes, the root included.
\<close>

fun nodes :: "SelectTree \<Rightarrow> string list list" where
  "nodes Selected = [[]]"
| "nodes (Nested kvs) = [] # concat (map (\<lambda>(k, t). map ((#) k) (nodes t)) kvs)"

text \<open>
  The tree under the key \<open>k\<close> of \<open>buildSelect es\<close>.
\<close>

definition subTree :: "string \<Rightarrow> string list list \<Rightarrow> SelectTree" where
  "subTree k es = (if subEntries k es = [] then Selected else Nested (buildSelect (subEntries k es)))"

text \<open>
  Every ordering entry has exactly one pair; a given \<^verbatim>\<open>skip\<close> or \<^verbatim>\<open>take\<close> is coercible.
\<close>

definition singleKeys :: "(string \<times> string) list list option \<Rightarrow> bool" where
  "singleKeys ob = (case ob of None \<Rightarrow> True | Some l \<Rightarrow> list_all (\<lambda>e. length e = 1) l)"

definition coercible :: "jsval option \<Rightarrow> bool" where
  "coercible given = (case given of None \<Rightarrow> True | Some v \<Rightarrow> toInteger v \<noteq> None)"

text \<open>
  The inputs of the repository's tests of \<^verbatim>\<open>getPaths\<close>: the requested-fields list and the
  normalized arguments of the update and of the createMany call.
\<close>

definition testSelection :: "string list" where
  "testSelection = [''__typename'', ''title'', ''comment'', ''comment/content'', ''comment/author'',
     ''comment/author/email'', ''comment/author/username'', ''comment/author/badges'',
     ''comment/author/badges/label'', ''comment/author/badges/owners'',
     ''comment/author/badges/owners/email'']"

definition updateTestArgs :: QueryArgs where
  "updateTestArgs =
     \<lparr> qa_select = Some (getSelect testSelection), qa_where = None,
       qa_data = Some (JObj [(''title'', JStr ''New title''),
                             (''author'', JObj [(''connect'', JObj [(''username'', JStr ''other user'')])])]),
       qa_orderBy = None, qa_skip = None, qa_take = None, qa_skipDuplicates = None \<rparr>"

definition createManyTestArgs :: QueryArgs where
  "createManyTestArgs =
     \<lparr> qa_select = Some (getSelect testSelection), qa_where = None,
       qa_data = Some (JArr [JObj [(''title'', JStr ''New title''),
                             (''author'', JObj [(''connect'', JObj [(''username'', JStr ''johndoe'')])])]]),
       qa_orderBy = None, qa_skip = None, qa_take = None, qa_skipDuplicates = None \<rparr>"

section \<open>Properties of the authorization engine\<close>

lemma shieldLoop_matches:
  "shieldLoop isMatch merge path sh a = applyAll merge a (matches isMatch sh path)"
  by (induction sh arbitrary: a) (auto simp: matches_def applyAll_def)

lemma applyAll_append: "applyAll merge a (xs @ ys) = applyAll merge (applyAll merge a xs) ys"
  by (simp add: applyAll_def)

lemma pathsLoop_scan:
  "n \<le> length ps \<Longrightarrow>
   pathsLoop isMatch merge sh ps n a = applyAll merge a (scan isMatch sh (take n ps))"
proof (induction n arbitrary: a)
  case 0
  then show ?case by (simp add: scan_def applyAll_def)
next
  case (Suc n)
  then have "take (Suc n) ps = take n ps @ [ps ! n]"
    by (simp add: take_Suc_conv_app_nth)
  then have "scan isMatch sh (take (Suc n) ps)
      = matches isMatch sh (ps ! n) @ scan isMatch sh (take n ps)"
    by (simp add: scan_def)
  with Suc show ?case
    by (simp add: shieldLoop_matches applyAll_append)
qed

lemma getAuthorization_scan:
  "getAuthorization isMatch merge sh ps
     = applyAll merge initialAuthorization (scan isMatch sh ps)"
  by (simp add: getAuthorization_def pathsLoop_scan)

lemma applyRule_sets:
  "canAccess (applyRule merge g r a) = ruleAccess r"
  "reason (applyRule merge g r a) = Some (ruleReason g r)"
  "matcher (applyRule merge g r a) = Some g"
  by (simp_all add: applyRule_def Let_def split: ShieldRule.split jsval.split option.split)

lemma applyRule_filter:
  "prismaFilter (applyRule merge g r a) =
     (case ruleFilter r of
        None \<Rightarrow> prismaFilter a
      | Some f \<Rightarrow> merge (JObj []) (if truthy (prismaFilter a) then prismaFilter a else JObj []) f)"
  by (simp add: applyRule_def Let_def split: ShieldRule.split jsval.split option.split)

lemma applyAll_snoc:
  "applyAll merge a (ms @ [(g, r)]) = applyRule merge g r (applyAll merge a ms)"
  by (simp add: applyAll_def)

lemma applyAll_last:
  assumes "ms \<noteq> []"
  shows "canAccess (applyAll merge a ms) = ruleAccess (snd (last ms))"
    and "reason (applyAll merge a ms) = Some (ruleReason (fst (last ms)) (snd (last ms)))"
    and "matcher (applyAll merge a ms) = Some (fst (last ms))"
proof -
  from assms obtain ms' g r where ms: "ms = ms' @ [(g, r)]"
    by (metis surj_pair rev_exhaust)
  show "canAccess (applyAll merge a ms) = ruleAccess (snd (last ms))"
    and "reason (applyAll merge a ms) = Some (ruleReason (fst (last ms)) (snd (last ms)))"
    and "matcher (applyAll merge a ms) = Some (fst (last ms))"
    unfolding ms applyAll_snoc by (simp_all add: applyRule_sets)
qed

lemma scan_decisive:
  assumes "ps = pre @ p # post"
    and "\<forall>q\<in>set pre. matches isMatch sh q = []"
    and "sh = s1 @ (g, r) # s2"
    and "isMatch p g"
    and "\<forall>(g', r')\<in>set s2. \<not> isMatch p g'"
  shows "scan isMatch sh ps \<noteq> []" and "last (scan isMatch sh ps) = (g, r)"
proof -
  have pre: "concat (map (matches isMatch sh) (rev pre)) = []"
    using assms(2) by simp
  have s2: "filter (\<lambda>(g', r'). isMatch p g') s2 = []"
    using assms(5) by (auto simp: filter_empty_conv)
  have m: "matches isMatch sh p = filter (\<lambda>(g', r'). isMatch p g') s1 @ [(g, r)]"
    using assms(3,4) s2 by (simp add: matches_def)
  have sc: "scan isMatch sh ps
      = concat (map (matches isMatch sh) (rev post)) @ filter (\<lambda>(g', r'). isMatch p g') s1 @ [(g, r)]"
    using assms(1) pre m by (simp add: scan_def)
  show "scan isMatch sh ps \<noteq> []" using sc by simp
  show "last (scan isMatch sh ps) = (g, r)" using sc by simp
qed

text \<open>
  C1. The engine scans the paths from the last to the first and, for each path, the
  shield's entries in their order (\<open>scan\<close>). The access flag, the reason and the matcher
  of the returned decision are those set by the last match of this scan. So the decisive
  entry is the last matching entry of the earliest listed path that has a match: a match
  of the first path overrides the matches of later paths, and within one path a later
  entry overrides an earlier one.
\<close>

theorem getAuthorization_last_match:
  "(scan isMatch sh ps \<noteq> [] \<longrightarrow>
      canAccess (getAuthorization isMatch merge sh ps)
        = ruleAccess (snd (last (scan isMatch sh ps))) \<and>
      reason (getAuthorization isMatch merge sh ps)
        = Some (ruleReason (fst (last (scan isMatch sh ps)))
                  (snd (last (scan isMatch sh ps)))) \<and>
      matcher (getAuthorization isMatch merge sh ps)
        = Some (fst (last (scan isMatch sh ps)))) \<and>
   (\<forall>pre p post s1 g r s2.
      ps = pre @ p # post \<and> (\<forall>q\<in>set pre. matches isMatch sh q = []) \<and>
      sh = s1 @ (g, r) # s2 \<and> isMatch p g \<and> (\<forall>(g', r')\<in>set s2. \<not> isMatch p g') \<longrightarrow>
      canAccess (getAuthorization isMatch merge sh ps) = ruleAccess r \<and>
      reason (getAuthorization isMatch merge sh ps) = Some (ruleReason g r) \<and>
      matcher (getAuthorization isMatch merge sh ps) = Some g)"
proof (intro conjI impI allI)
  assume ne: "scan isMatch sh ps \<noteq> []"
  show "canAccess (getAuthorization isMatch merge sh ps)
        = ruleAccess (snd (last (scan isMatch sh ps)))"
    unfolding getAuthorization_scan by (rule applyAll_last(1)[OF ne])
  show "reason (getAuthorization isMatch merge sh ps)
        = Some (ruleReason (fst (last (scan isMatch sh ps)))
                  (snd (last (scan isMatch sh ps))))"
    unfolding getAuthorization_scan by (rule applyAll_last(2)[OF ne])
  show "matcher (getAuthorization isMatch merge sh ps)
        = Some (fst (last (scan isMatch sh ps)))"
    unfolding getAuthorization_scan by (rule applyAll_last(3)[OF ne])
next
  fix pre p post s1 g r s2
  assume h: "ps = pre @ p # post \<and> (\<forall>q\<in>set pre. matches isMatch sh q = []) \<and>
      sh = s1 @ (g, r) # s2 \<and> isMatch p g \<and> (\<forall>(g', r')\<in>set s2. \<not> isMatch p g')"
  then have ne: "scan isMatch sh ps \<noteq> []"
    and l: "last (scan isMatch sh ps) = (g, r)"
    using scan_decisive[of ps pre p post isMatch sh s1 g r s2] by blast+
  show "canAccess (getAuthorization isMatch merge sh ps) = ruleAccess r"
    unfolding getAuthorization_scan using applyAll_last(1)[OF ne] l by simp
  show "reason (getAuthorization isMatch merge sh ps) = Some (ruleReason g r)"
    unfolding getAuthorization_scan using applyAll_last(2)[OF ne, of merge initialAuthorization] l by simp
  show "matcher (getAuthorization isMatch merge sh ps) = Some g"
    unfolding getAuthorization_scan using applyAll_last(3)[OF ne, of merge initialAuthorization] l by simp
qed

theorem getAuthorization_last_match_witness:
  "scan isMatchGlob
     [(''/get/post/*'', RuleBoolean True), (''/get/post/body'', RuleBoolean False)]
     [''/get/post/body'', ''/get/post/title''] \<noteq> [] \<and>
   isMatchGlob ''/get/post/body'' ''/get/post/body'' \<and>
   canAccess (getAuthorization isMatchGlob mergeObjects
     [(''/get/post/*'', RuleBoolean True), (''/get/post/body'', RuleBoolean False)]
     [''/get/post/body'', ''/get/post/title'']) = False \<and>
   reason (getAuthorization isMatchGlob mergeObjects
     [(''/get/post/*'', RuleBoolean True), (''/get/post/body'', RuleBoolean False)]
     [''/get/post/body'', ''/get/post/title'']) = Some (ReasonString ''Matcher: /get/post/body'') \<and>
   matcher (getAuthorization isMatchGlob mergeObjects
     [(''/get/post/*'', RuleBoolean True), (''/get/post/body'', RuleBoolean False)]
     [''/get/post/body'', ''/get/post/title'']) = Some ''/get/post/body''"
proof -
  let ?sh = "[(''/get/post/*'', RuleBoolean True), (''/get/post/body'', RuleBoolean False)]"
  let ?ps = "[''/get/post/body'', ''/get/post/title'']"
  have m: "isMatchGlob ''/get/post/body'' ''/get/post/body''"
    by (simp add: isMatchGlob_def)
  have sc: "scan isMatchGlob ?sh ?ps \<noteq> []"
    by (simp add: scan_def matches_def isMatchGlob_def)
  have dec: "?ps = [] @ ''/get/post/body'' # [''/get/post/title''] \<and>
      (\<forall>q\<in>set []. matches isMatchGlob ?sh q = []) \<and>
      ?sh = [(''/get/post/*'', RuleBoolean True)] @ (''/get/post/body'', RuleBoolean False) # [] \<and>
      isMatchGlob ''/get/post/body'' ''/get/post/body'' \<and>
      (\<forall>(g', r')\<in>set []. \<not> isMatchGlob ''/get/post/body'' g')"
    using m by simp
  from getAuthorization_last_match[where isMatch = isMatchGlob and sh = ?sh
        and ps = ?ps and merge = mergeObjects, THEN conjunct2, THEN spec, THEN spec,
      THEN spec, THEN spec, THEN spec, THEN spec, THEN spec, THEN mp, OF dec]
  show ?thesis using m sc by simp
qed

lemma scan_empty:
  "(\<forall>p\<in>set ps. \<forall>(g, r)\<in>set sh. \<not> isMatch p g) \<Longrightarrow> scan isMatch sh ps = []"
  by (auto simp: scan_def matches_def filter_empty_conv)

text \<open>
  C8. When no glob pattern of the shield matches any path, and so for an empty shield or
  an empty path list, the engine returns the default decision: access allowed, no reason,
  no filter, no matcher.
\<close>

theorem getAuthorization_default_allow:
  "getAuthorization isMatch merge [] ps
     = \<lparr> canAccess = True, reason = None, prismaFilter = JNull, matcher = None \<rparr> \<and>
   getAuthorization isMatch merge sh []
     = \<lparr> canAccess = True, reason = None, prismaFilter = JNull, matcher = None \<rparr> \<and>
   ((\<forall>p\<in>set ps. \<forall>(g, r)\<in>set sh. \<not> isMatch p g) \<longrightarrow>
    getAuthorization isMatch merge sh ps
      = \<lparr> canAccess = True, reason = None, prismaFilter = JNull, matcher = None \<rparr>)"
proof (intro conjI impI)
  have "scan isMatch [] ps = []" by (rule scan_empty) simp
  then show "getAuthorization isMatch merge [] ps
     = \<lparr> canAccess = True, reason = None, prismaFilter = JNull, matcher = None \<rparr>"
    by (simp add: getAuthorization_scan applyAll_def initialAuthorization_def)
  show "getAuthorization isMatch merge sh []
     = \<lparr> canAccess = True, reason = None, prismaFilter = JNull, matcher = None \<rparr>"
    by (simp add: getAuthorization_def initialAuthorization_def)
  assume "\<forall>p\<in>set ps. \<forall>(g, r)\<in>set sh. \<not> isMatch p g"
  then have "scan isMatch sh ps = []" by (rule scan_empty)
  then show "getAuthorization isMatch merge sh ps
      = \<lparr> canAccess = True, reason = None, prismaFilter = JNull, matcher = None \<rparr>"
    by (simp add: getAuthorization_scan applyAll_def initialAuthorization_def)
qed

theorem getAuthorization_default_allow_witness:
  "\<not> isMatchGlob ''/get/post/title'' ''/list/post/*'' \<and>
   \<not> isMatchGlob ''/get/post/title'' ''/get/user/*'' \<and>
   getAuthorization isMatchGlob mergeObjects
     [(''/list/post/*'', RuleBoolean False),
      (''/get/user/*'', RuleObject (JObj [(''id'', JNum 1)]) None)]
     [''/get/post/title'']
     = \<lparr> canAccess = True, reason = None, prismaFilter = JNull, matcher = None \<rparr>"
proof -
  have m: "\<not> isMatchGlob ''/get/post/title'' ''/list/post/*''"
    "\<not> isMatchGlob ''/get/post/title'' ''/get/user/*''"
    by (simp_all add: isMatchGlob_def)
  then have h: "\<forall>p\<in>set [''/get/post/title''].
      \<forall>(g, r)\<in>set [(''/list/post/*'', RuleBoolean False),
                      (''/get/user/*'', RuleObject (JObj [(''id'', JNum 1)]) None)].
        \<not> isMatchGlob p g"
    by simp
  from getAuthorization_default_allow[where isMatch = isMatchGlob and merge = mergeObjects
        and ps = "[''/get/post/title'']"
        and sh = "[(''/list/post/*'', RuleBoolean False),
                       (''/get/user/*'', RuleObject (JObj [(''id'', JNum 1)]) None)]",
      THEN conjunct2, THEN conjunct2, THEN mp, OF h]
  show ?thesis using m by simp
qed

lemma filtersOf_simps:
  "filtersOf [] = []"
  "filtersOf (ms @ [(g, r)]) = filtersOf ms @ (case ruleFilter r of None \<Rightarrow> [] | Some f \<Rightarrow> [f])"
  by (simp_all add: filtersOf_def List.map_filter_def split: option.split)

lemma mergeAll_snoc: "mergeAll merge (fs @ [f]) = merge (JObj []) (mergeAll merge fs) f"
  by (simp add: mergeAll_def)

lemma mergeAll_truthy:
  assumes "\<forall>x y. truthy (merge (JObj []) x y)"
  shows "truthy (mergeAll merge fs)"
  using assms by (cases fs rule: rev_cases) (simp_all add: mergeAll_def)

lemma applyAll_filter:
  assumes "\<forall>x y. truthy (merge (JObj []) x y)"
  shows "prismaFilter (applyAll merge initialAuthorization ms)
     = (if filtersOf ms = [] then JNull else mergeAll merge (filtersOf ms))"
proof (induction ms rule: rev_induct)
  case Nil
  show ?case by (simp add: applyAll_def initialAuthorization_def filtersOf_simps)
next
  case (snoc x ms)
  obtain g r where x: "x = (g, r)" by (cases x)
  show ?case
  proof (cases "ruleFilter r")
    case None
    then show ?thesis using snoc
      by (simp add: x applyAll_snoc applyRule_filter filtersOf_simps)
  next
    case (Some f)
    show ?thesis
    proof (cases "filtersOf ms = []")
      case True
      then show ?thesis using snoc Some
        by (simp add: x applyAll_snoc applyRule_filter filtersOf_simps mergeAll_def)
    next
      case False
      then show ?thesis using snoc Some mergeAll_truthy[of merge, OF assms, of "filtersOf ms"]
        by (simp add: x applyAll_snoc applyRule_filter filtersOf_simps mergeAll_snoc)
    qed
  qed
qed

text \<open>
  C2. Whenever a matching rule has a \<^verbatim>\<open>rule\<close> property that is not a boolean, the
  engine sets the access flag to true at that step and merges the property into the
  accumulated filter; the filter of the returned decision is the merge of the filter trees
  of all such matches of the whole scan, in scan order, whatever rule decides the access
  flag in the end. The merge is lodash's; all that is used of it is that it returns a
  truthy value (it returns its destination object).
\<close>

theorem getAuthorization_filter_merge:
  assumes "\<forall>x y. truthy (merge (JObj []) x y)"
  shows "prismaFilter (getAuthorization isMatch merge sh ps)
       = (if filtersOf (scan isMatch sh ps) = [] then JNull
          else mergeAll merge (filtersOf (scan isMatch sh ps))) \<and>
     (\<forall>ms g r f. ruleFilter r = Some f \<longrightarrow>
        canAccess (applyRule merge g r (applyAll merge initialAuthorization ms)) \<and>
        prismaFilter (applyRule merge g r (applyAll merge initialAuthorization ms))
          = mergeAll merge (filtersOf ms @ [f]))"
proof (intro conjI allI impI)
  show "prismaFilter (getAuthorization isMatch merge sh ps)
       = (if filtersOf (scan isMatch sh ps) = [] then JNull
          else mergeAll merge (filtersOf (scan isMatch sh ps)))"
    unfolding getAuthorization_scan by (rule applyAll_filter[of merge, OF assms])
next
  fix ms g r f
  assume f: "ruleFilter r = Some f"
  then have "ruleAccess r" by (cases r rule: ruleFilter.cases) auto
  then show "canAccess (applyRule merge g r (applyAll merge initialAuthorization ms))"
    by (simp add: applyRule_sets)
  have "prismaFilter (applyAll merge initialAuthorization (ms @ [(g, r)]))
      = mergeAll merge (filtersOf ms @ [f])"
    using f by (simp add: applyAll_filter[of merge, OF assms] filtersOf_simps)
  then show "prismaFilter (applyRule merge g r (applyAll merge initialAuthorization ms))
      = mergeAll merge (filtersOf ms @ [f])"
    by (simp add: applyAll_snoc)
qed

theorem getAuthorization_filter_merge_witness:
  "(\<forall>x y. truthy (mergeObjects (JObj []) x y)) \<and>
   prismaFilter (getAuthorization isMatchGlob mergeObjects
     [(''/get/post/body'', RuleObject (JObj [(''published'', JBool True)]) None),
      (''/get/post/title'', RuleObject (JObj [(''authorId'', JNum 1)]) None),
      (''/get/post/*'', RuleBoolean False)]
     [''/get/post/title'', ''/get/post/body''])
     = JObj [(''published'', JBool True), (''authorId'', JNum 1)] \<and>
   canAccess (getAuthorization isMatchGlob mergeObjects
     [(''/get/post/body'', RuleObject (JObj [(''published'', JBool True)]) None),
      (''/get/post/title'', RuleObject (JObj [(''authorId'', JNum 1)]) None),
      (''/get/post/*'', RuleBoolean False)]
     [''/get/post/title'', ''/get/post/body'']) = False"
proof -
  let ?sh = "[(''/get/post/body'', RuleObject (JObj [(''published'', JBool True)]) None),
      (''/get/post/title'', RuleObject (JObj [(''authorId'', JNum 1)]) None),
      (''/get/post/*'', RuleBoolean False)]"
  let ?ps = "[''/get/post/title'', ''/get/post/body'']"
  have h: "\<forall>x y. truthy (mergeObjects (JObj []) x y)"
    by (simp add: mergeObjects_def)
  have fs: "filtersOf (scan isMatchGlob ?sh ?ps)
      = [JObj [(''published'', JBool True)], JObj [(''authorId'', JNum 1)]]"
    by (simp add: scan_def matches_def isMatchGlob_def filtersOf_def List.map_filter_def)
  have m: "mergeAll mergeObjects [JObj [(''published'', JBool True)], JObj [(''authorId'', JNum 1)]]
      = JObj [(''published'', JBool True), (''authorId'', JNum 1)]"
    by (simp add: mergeAll_def mergeObjects_def)
  have c: "canAccess (getAuthorization isMatchGlob mergeObjects ?sh ?ps) = False"
    by (simp add: getAuthorization_scan scan_def matches_def isMatchGlob_def applyAll_def
        applyRule_sets)
  from getAuthorization_filter_merge[of mergeObjects, OF h, of isMatchGlob ?sh ?ps, THEN conjunct1]
  show ?thesis using h fs m c by simp
qed

lemma set_filtersOf: "set (filtersOf ms) = {f. \<exists>(g, r)\<in>set ms. ruleFilter r = Some f}"
  by (induction ms) (auto simp: filtersOf_def split: option.splits)

lemma set_scan: "set (scan isMatch sh ps) = {(g, r). (g, r) \<in> set sh \<and> (\<exists>p\<in>set ps. isMatch p g)}"
  by (auto simp: scan_def matches_def)

text \<open>
  C10. The filter of the returned decision is not null exactly when some entry of the
  shield matching some path has a \<^verbatim>\<open>rule\<close> property that is not a boolean; so it is
  null when every matching rule is a boolean or has a boolean \<^verbatim>\<open>rule\<close>. This does not
  depend on the access flag: the example is a denied decision that carries a filter.
\<close>

theorem getAuthorization_filter_null_iff:
  assumes "\<forall>x y. truthy (merge (JObj []) x y)"
  shows "(prismaFilter (getAuthorization isMatch merge sh ps) \<noteq> JNull)
       = (\<exists>p\<in>set ps. \<exists>(g, r)\<in>set sh. isMatch p g \<and> ruleFilter r \<noteq> None) \<and>
     \<not> canAccess (getAuthorization isMatchGlob mergeObjects
        [(''/list/post/*'', RuleObject (JObj [(''published'', JBool True)]) None),
         (''/list/post/secret'', RuleBoolean False)]
        [''/list/post/secret'']) \<and>
     prismaFilter (getAuthorization isMatchGlob mergeObjects
        [(''/list/post/*'', RuleObject (JObj [(''published'', JBool True)]) None),
         (''/list/post/secret'', RuleBoolean False)]
        [''/list/post/secret'']) \<noteq> JNull"
proof (intro conjI)
  have "(filtersOf (scan isMatch sh ps) \<noteq> [])
      = (\<exists>p\<in>set ps. \<exists>(g, r)\<in>set sh. isMatch p g \<and> ruleFilter r \<noteq> None)"
    unfolding set_empty[symmetric] set_filtersOf set_scan by fastforce
  moreover have "filtersOf (scan isMatch sh ps) \<noteq> [] \<Longrightarrow>
      mergeAll merge (filtersOf (scan isMatch sh ps)) \<noteq> JNull"
    using mergeAll_truthy[of merge, OF assms, of "filtersOf (scan isMatch sh ps)"] by auto
  ultimately show "(prismaFilter (getAuthorization isMatch merge sh ps) \<noteq> JNull)
       = (\<exists>p\<in>set ps. \<exists>(g, r)\<in>set sh. isMatch p g \<and> ruleFilter r \<noteq> None)"
    unfolding getAuthorization_scan applyAll_filter[of merge, OF assms] by auto
next
  show "\<not> canAccess (getAuthorization isMatchGlob mergeObjects
        [(''/list/post/*'', RuleObject (JObj [(''published'', JBool True)]) None),
         (''/list/post/secret'', RuleBoolean False)]
        [''/list/post/secret''])"
    by (simp add: getAuthorization_scan scan_def matches_def isMatchGlob_def applyAll_def
        applyRule_sets)
  show "prismaFilter (getAuthorization isMatchGlob mergeObjects
        [(''/list/post/*'', RuleObject (JObj [(''published'', JBool True)]) None),
         (''/list/post/secret'', RuleBoolean False)]
        [''/list/post/secret'']) \<noteq> JNull"
    by (simp add: getAuthorization_scan scan_def matches_def isMatchGlob_def applyAll_def
        applyRule_filter mergeObjects_def)
qed

theorem getAuthorization_filter_null_iff_witness:
  "(\<forall>x y. truthy (mergeObjects (JObj []) x y)) \<and>
   isMatchGlob ''/get/user/email'' ''/get/user/*'' \<and>
   prismaFilter (getAuthorization isMatchGlob mergeObjects
     [(''/get/user/*'', RuleObject (JObj [(''id'', JNum 7)]) (Some (ReasonString ''own profile only'')))]
     [''/get/user/email'']) \<noteq> JNull \<and>
   \<not> isMatchGlob ''/get/post/title'' ''/get/user/*'' \<and>
   prismaFilter (getAuthorization isMatchGlob mergeObjects
     [(''/get/user/*'', RuleObject (JObj [(''id'', JNum 7)]) (Some (ReasonString ''own profile only'')))]
     [''/get/post/title'']) = JNull"
proof -
  let ?sh = "[(''/get/user/*'', RuleObject (JObj [(''id'', JNum 7)]) (Some (ReasonString ''own profile only'')))]"
  have h: "\<forall>x y. truthy (mergeObjects (JObj []) x y)"
    by (simp add: mergeObjects_def)
  have m1: "isMatchGlob ''/get/user/email'' ''/get/user/*''"
    and m2: "\<not> isMatchGlob ''/get/post/title'' ''/get/user/*''"
    by (simp_all add: isMatchGlob_def)
  from getAuthorization_filter_null_iff[of mergeObjects, OF h, of isMatchGlob ?sh "[''/get/user/email'']", THEN conjunct1]
    getAuthorization_filter_null_iff[of mergeObjects, OF h, of isMatchGlob ?sh "[''/get/post/title'']", THEN conjunct1]
  show ?thesis using h m1 m2 by simp
qed

section \<open>Properties of the client\<close>

text \<open>
  C3. The code at an object \<^verbatim>\<open>where\<close>, the only kind Prisma accepts: an object has no
  \<^verbatim>\<open>length\<close>, the test \<^verbatim>\<open>params.args.where.length > 0\<close> is false, and the shield's
  filter replaces the caller's \<^verbatim>\<open>where\<close> instead of being combined with it under
  \<^verbatim>\<open>AND\<close>. Both clients register this same function.
\<close>

theorem prismaFilterMiddleware_replaces_object_where:
  "prismaFilterMiddleware positive (JObj [(''authorId'', JNum 1)])
     (JObj [(''title'', JObj [(''startsWith'', JStr ''Hello'')])])
   = Inr (JObj [(''authorId'', JNum 1)])"
  by (simp add: prismaFilterMiddleware_def)

text \<open>
  C4. A call whose depth exceeds the maximum (3 unless configured) is rejected with an
  error of type \<^verbatim>\<open>FORBIDDEN\<close>, whatever the shield function and the authorization
  engine are: neither is run, the outer state and the client are as before the call.
\<close>

theorem resolve_depth_guard:
  "(parseEvent im (event rp) options (resolvers rp) = Inr qp \<and>
    maxDepth options < getDepth im (paths qp) (ctx qp) \<longrightarrow>
    resolve (im\<lparr>getShieldAuthorization := engine\<rparr>) options testing (rp\<lparr>shield := sh\<rparr>)
        prismaClient w
      = (Inl (parseError im
                (CustomError
                   (''Query has depth of '' @ showInt (getDepth im (paths qp) (ctx qp))
                      @ '', which exceeds max depth of '' @ showInt (maxDepth options) @ ''.'')
                   FORBIDDEN)),
         prismaClient, w)) \<and>
   maxDepth (constructorOptions databaseUrl None) = 3 \<and>
   maxDepth (constructorOptions databaseUrl (Some (opts\<lparr>maxDepth_opt := None\<rparr>))) = 3"
  by (simp add: resolve_def constructorOptions_def Let_def)

theorem resolve_depth_guard_witness:
  "parseEvent exampleImports (event exampleResolveParams) (constructorOptions ''db'' None)
     (resolvers exampleResolveParams) = Inr exampleQueryParams \<and>
   maxDepth (constructorOptions ''db'' None)
     < getDepth exampleImports (paths exampleQueryParams) (ctx exampleQueryParams) \<and>
   resolve exampleImports (constructorOptions ''db'' None) False exampleResolveParams [] 0
     = (Inl (CustomError ''Query has depth of 4, which exceeds max depth of 3.'' FORBIDDEN), [], 0)"
proof -
  have p: "parseEvent exampleImports (event exampleResolveParams) (constructorOptions ''db'' None)
     (resolvers exampleResolveParams) = Inr exampleQueryParams"
    by (simp add: exampleImports_def)
  have d: "maxDepth (constructorOptions ''db'' None)
     < getDepth exampleImports (paths exampleQueryParams) (ctx exampleQueryParams)"
    by (simp add: exampleImports_def constructorOptions_def)
  have i: "exampleImports\<lparr>getShieldAuthorization := getShieldAuthorization exampleImports\<rparr>
      = exampleImports"
    and r: "exampleResolveParams\<lparr>shield := shield exampleResolveParams\<rparr> = exampleResolveParams"
    by simp_all
  have g: "getDepth exampleImports (paths exampleQueryParams) (ctx exampleQueryParams) = 4"
    and m: "maxDepth (constructorOptions ''db'' None) = 3"
    and e: "parseError exampleImports = (\<lambda>e. e)"
    by (simp_all add: exampleImports_def constructorOptions_def)
  have s: "showInt 4 = ''4''" "showInt 3 = ''3''"
    by (simp_all add: showInt_def)
  from resolve_depth_guard[where im = exampleImports and rp = exampleResolveParams
      and options = "constructorOptions ''db'' None" and qp = exampleQueryParams
      and engine = "getShieldAuthorization exampleImports"
      and sh = "shield exampleResolveParams" and testing = False and prismaClient = "[]"
      and w = "0::nat", THEN conjunct1, THEN mp, OF conjI, OF p d]
  show ?thesis using p d unfolding i r g m e s by simp
qed

section \<open>Properties of the adapter\<close>

lemma set_firstsOf: "set (firstsOf xs) = set xs"
  by (simp add: firstsOf_def)

lemma set_subEntries: "set (subEntries k es) = {t. t \<noteq> [] \<and> k # t \<in> set es}"
proof -
  have "\<And>t. k # t \<in> set es \<Longrightarrow> t \<in> tl ` {e \<in> set es. e \<noteq> [] \<and> hd e = k}"
    by force
  moreover have "\<And>e. e \<in> set es \<Longrightarrow> e \<noteq> [] \<Longrightarrow> hd e # tl e \<in> set es"
    by simp
  ultimately show ?thesis
    by (auto simp: subEntries_def)
qed

lemma set_keys:
  "set (firstsOf (map hd (filter (\<lambda>e. e \<noteq> []) es))) = {k. \<exists>t. k # t \<in> set es}"
proof -
  have "\<And>e. e \<in> set es \<Longrightarrow> e \<noteq> [] \<Longrightarrow> \<exists>t. hd e # t \<in> set es"
    by (metis hd_Cons_tl)
  moreover have "\<And>k t. k # t \<in> set es \<Longrightarrow> k \<in> hd ` {e \<in> set es. e \<noteq> []}"
    by force
  ultimately show ?thesis
    by (auto simp: set_firstsOf)
qed

lemma buildSelect_unfold:
  "buildSelect es = map (\<lambda>k. (k, subTree k es)) (firstsOf (map hd (filter (\<lambda>e. e \<noteq> []) es)))"
  unfolding subTree_def by (rule buildSelect.simps)

lemma keys_buildSelect: "set (map fst (buildSelect es)) = {k. \<exists>t. k # t \<in> set es}"
  by (subst buildSelect_unfold) (simp add: comp_def set_keys)

lemma leaves_root:
  "set (leaves (Nested (buildSelect es)))
     = {k # q | k q. (\<exists>t. k # t \<in> set es) \<and> q \<in> set (leaves (subTree k es))}"
  by (subst buildSelect_unfold) (auto simp: set_keys comp_def)

lemma nodes_root:
  "set (nodes (Nested (buildSelect es)))
     = insert [] {k # q | k q. (\<exists>t. k # t \<in> set es) \<and> q \<in> set (nodes (subTree k es))}"
  by (subst buildSelect_unfold) (auto simp: set_keys comp_def)

lemma leaves_buildSelect:
  "p \<in> set (leaves (Nested (buildSelect es)))
     \<longleftrightarrow> p \<noteq> [] \<and> p \<in> set es \<and> (\<forall>e\<in>set es. \<not> strict_prefix p e)"
proof (induction es arbitrary: p rule: buildSelect.induct)
  case (1 es)
  show ?case
  proof (cases p)
    case Nil
    then show ?thesis by (auto simp: leaves_root[of es] simp del: leaves.simps(2))
  next
    case (Cons k q)
    show ?thesis
    proof (cases "subEntries k es = []")
      case True
      then have none: "\<And>t. k # t \<in> set es \<Longrightarrow> t = []"
        using set_subEntries[of k es] by auto
      have "p \<in> set (leaves (Nested (buildSelect es))) \<longleftrightarrow> (\<exists>t. k # t \<in> set es) \<and> q = []"
        using True by (auto simp: leaves_root[of es] Cons subTree_def simp del: leaves.simps(2))
      also have "\<dots> \<longleftrightarrow> p \<in> set es \<and> (\<forall>e\<in>set es. \<not> strict_prefix p e)"
      proof -
        have a: "strict_prefix (k # q) e \<longleftrightarrow> (\<exists>t. e = k # t \<and> strict_prefix q t)" for e
          by (cases e) (auto simp: strict_prefix_def)
        have b: "strict_prefix q t \<Longrightarrow> t \<noteq> []" for t
          by (auto simp: strict_prefix_def)
        show ?thesis
          unfolding Cons a using none b by blast
      qed
      finally show ?thesis by (simp add: Cons)
    next
      case False
      then obtain t0 where t0: "t0 \<noteq> []" "k # t0 \<in> set es"
        using set_subEntries[of k es] by (cases "subEntries k es") auto
      then have kin: "k \<in> set (firstsOf (map hd (filter (\<lambda>e. e \<noteq> []) es)))"
        unfolding set_keys by blast
      have IH: "q \<in> set (leaves (Nested (buildSelect (subEntries k es))))
          \<longleftrightarrow> q \<noteq> [] \<and> q \<in> set (subEntries k es) \<and> (\<forall>e\<in>set (subEntries k es). \<not> strict_prefix q e)"
        by (rule "1.IH"[OF kin False])
      have "p \<in> set (leaves (Nested (buildSelect es)))
          \<longleftrightarrow> q \<in> set (leaves (Nested (buildSelect (subEntries k es))))"
        using False t0 by (auto simp: leaves_root[of es] Cons subTree_def simp del: leaves.simps(2))
      also have "\<dots> \<longleftrightarrow> q \<noteq> [] \<and> k # q \<in> set es \<and> (\<forall>t. t \<noteq> [] \<and> k # t \<in> set es \<longrightarrow> \<not> strict_prefix q t)"
        unfolding IH set_subEntries by auto
      also have "\<dots> \<longleftrightarrow> k # q \<in> set es \<and> (\<forall>e\<in>set es. \<not> strict_prefix (k # q) e)"
      proof -
        have a: "strict_prefix (k # q) e \<longleftrightarrow> (\<exists>t. e = k # t \<and> strict_prefix q t)" for e
          by (cases e) (auto simp: strict_prefix_def)
        have b: "strict_prefix q t \<Longrightarrow> t \<noteq> []" for t
          by (auto simp: strict_prefix_def)
        have c: "q = [] \<Longrightarrow> strict_prefix q t0"
          using t0 by (simp add: strict_prefix_def)
        show ?thesis
          unfolding a using b c t0 by blast
      qed
      finally show ?thesis by (simp add: Cons)
    qed
  qed
qed

lemma nodes_buildSelect:
  "p \<in> set (nodes (Nested (buildSelect es))) \<longleftrightarrow> p = [] \<or> (\<exists>e\<in>set es. prefix p e)"
proof (induction es arbitrary: p rule: buildSelect.induct)
  case (1 es)
  show ?case
  proof (cases p)
    case Nil
    then show ?thesis by (auto simp: nodes_root[of es] simp del: nodes.simps(2))
  next
    case (Cons k q)
    show ?thesis
    proof (cases "subEntries k es = []")
      case True
      then have none: "\<And>t. k # t \<in> set es \<Longrightarrow> t = []"
        using set_subEntries[of k es] by auto
      have "p \<in> set (nodes (Nested (buildSelect es))) \<longleftrightarrow> (\<exists>t. k # t \<in> set es) \<and> q = []"
        using True by (auto simp: nodes_root[of es] Cons subTree_def simp del: nodes.simps(2))
      also have "\<dots> \<longleftrightarrow> (\<exists>e\<in>set es. prefix p e)"
      proof -
        have a: "prefix (k # q) e \<longleftrightarrow> (\<exists>t. e = k # t \<and> prefix q t)" for e
          by (cases e) auto
        have b: "prefix q [] \<longleftrightarrow> q = []"
          by simp
        show ?thesis
          unfolding Cons a using none b by (metis Nil_prefix)
      qed
      finally show ?thesis by (simp add: Cons)
    next
      case False
      then obtain t0 where t0: "t0 \<noteq> []" "k # t0 \<in> set es"
        using set_subEntries[of k es] by (cases "subEntries k es") auto
      then have kin: "k \<in> set (firstsOf (map hd (filter (\<lambda>e. e \<noteq> []) es)))"
        unfolding set_keys by blast
      have IH: "q \<in> set (nodes (Nested (buildSelect (subEntries k es))))
          \<longleftrightarrow> q = [] \<or> (\<exists>e\<in>set (subEntries k es). prefix q e)"
        by (rule "1.IH"[OF kin False])
      have "p \<in> set (nodes (Nested (buildSelect es)))
          \<longleftrightarrow> q \<in> set (nodes (Nested (buildSelect (subEntries k es))))"
        using False t0 by (auto simp: nodes_root[of es] Cons subTree_def simp del: nodes.simps(2))
      also have "\<dots> \<longleftrightarrow> q = [] \<or> (\<exists>t. t \<noteq> [] \<and> k # t \<in> set es \<and> prefix q t)"
        unfolding IH set_subEntries by auto
      also have "\<dots> \<longleftrightarrow> (\<exists>e\<in>set es. prefix (k # q) e)"
      proof -
        have a: "prefix (k # q) e \<longleftrightarrow> (\<exists>t. e = k # t \<and> prefix q t)" for e
          by (cases e) auto
        have b: "prefix q t \<Longrightarrow> q \<noteq> [] \<Longrightarrow> t \<noteq> []" for t
          by auto
        show ?thesis
          unfolding a using b t0 by (metis Nil_prefix)
      qed
      finally show ?thesis by (simp add: Cons)
    qed
  qed
qed

lemma splitPath_nonempty: "splitPath s \<noteq> []"
  by (induction s) (auto split: list.splits)

lemma splitPath_single: "splitPath s = [t] \<Longrightarrow> s = t"
proof (induction s arbitrary: t)
  case Nil
  then show ?case by simp
next
  case (Cons c cs)
  then show ?case
    using splitPath_nonempty[of cs] by (auto split: if_splits list.splits)
qed

lemma requestedEntries_nonempty: "e \<in> set (requestedEntries l) \<Longrightarrow> e \<noteq> []"
  by (auto simp: requestedEntries_def splitPath_nonempty)

text \<open>
  C6. The keys of the select tree are the first-level fields: the tree has a key exactly
  when the key is a first-level segment of some requested entry, the type-name sentinel
  being discarded first. The tree mirrors the
  entries: its nodes are the non-empty prefixes of the entries. Flattened back to its leaf
  paths it gives the leaf entries of the input: the entries that no other entry extends.
\<close>

theorem getSelect_mirrors_requested_fields:
  "map fst (getSelect l) = getFields l \<and>
   set (map fst (getSelect l)) = {k. \<exists>e\<in>set (requestedEntries l). hd e = k} \<and>
   (\<forall>p. p \<noteq> [] \<longrightarrow>
      (p \<in> set (nodes (Nested (getSelect l))) \<longleftrightarrow> (\<exists>e\<in>set (requestedEntries l). prefix p e))) \<and>
   set (leaves (Nested (getSelect l)))
     = {e \<in> set (requestedEntries l). \<forall>e'\<in>set (requestedEntries l). \<not> strict_prefix e e'} \<and>
   [''__typename''] \<notin> set (requestedEntries l)"
proof (intro conjI allI impI)
  have "filter (\<lambda>e. e \<noteq> []) (requestedEntries l) = requestedEntries l"
    using requestedEntries_nonempty[of _ l] by (simp add: filter_id_conv)
  then show "map fst (getSelect l) = getFields l"
    unfolding getSelect_def getFields_def by (subst buildSelect_unfold) (simp add: comp_def)
next
  have "\<And>e. e \<in> set (requestedEntries l) \<Longrightarrow> \<exists>t. hd e # t \<in> set (requestedEntries l)"
    using requestedEntries_nonempty by (metis hd_Cons_tl)
  moreover have "\<And>k t. k # t \<in> set (requestedEntries l) \<Longrightarrow> \<exists>e\<in>set (requestedEntries l). hd e = k"
    by force
  ultimately show "set (map fst (getSelect l)) = {k. \<exists>e\<in>set (requestedEntries l). hd e = k}"
    unfolding getSelect_def keys_buildSelect by blast
next
  fix p :: "string list"
  assume "p \<noteq> []"
  then show "p \<in> set (nodes (Nested (getSelect l))) \<longleftrightarrow> (\<exists>e\<in>set (requestedEntries l). prefix p e)"
    unfolding getSelect_def nodes_buildSelect by simp
next
  show "set (leaves (Nested (getSelect l)))
     = {e \<in> set (requestedEntries l). \<forall>e'\<in>set (requestedEntries l). \<not> strict_prefix e e'}"
    unfolding getSelect_def using leaves_buildSelect[of _ "requestedEntries l"]
      requestedEntries_nonempty[of _ l] by blast
next
  show "[''__typename''] \<notin> set (requestedEntries l)"
    using splitPath_single[of _ "''__typename''"] by (auto simp: requestedEntries_def)
qed

theorem getSelect_mirrors_requested_fields_witness:
  "getFields [''__typename'', ''title'', ''description'', ''author'', ''author/username'',
              ''author/email'', ''author/comments'', ''author/comments/text'',
              ''author/comments/likes'', ''author/comments/likes/user'',
              ''author/comments/likes/user/username'']
     = [''title'', ''description'', ''author''] \<and>
   getSelect [''__typename'', ''title'', ''createdAt'', ''comments'', ''comments/post'',
              ''comments/author'', ''comments/author/email'']
     = [(''title'', Selected), (''createdAt'', Selected),
        (''comments'', Nested [(''post'', Selected), (''author'', Nested [(''email'', Selected)])])] \<and>
   [''comments'', ''author'', ''email'']
     \<in> set (leaves (Nested (getSelect [''__typename'', ''title'', ''createdAt'', ''comments'',
           ''comments/post'', ''comments/author'', ''comments/author/email'']))) \<and>
   [''comments'', ''author'']
     \<notin> set (leaves (Nested (getSelect [''__typename'', ''title'', ''createdAt'', ''comments'',
           ''comments/post'', ''comments/author'', ''comments/author/email''])))"
proof -
  let ?l = "[''__typename'', ''title'', ''createdAt'', ''comments'', ''comments/post'',
              ''comments/author'', ''comments/author/email'']"
  have v: "getSelect ?l
     = [(''title'', Selected), (''createdAt'', Selected),
        (''comments'', Nested [(''post'', Selected), (''author'', Nested [(''email'', Selected)])])]"
    by code_simp
  have r: "requestedEntries ?l = [[''title''], [''createdAt''], [''comments''], [''comments'', ''post''],
      [''comments'', ''author''], [''comments'', ''author'', ''email'']]"
    by (simp add: requestedEntries_def)
  have s: "set (leaves (Nested (getSelect ?l)))
     = {e \<in> set (requestedEntries ?l). \<forall>e'\<in>set (requestedEntries ?l). \<not> strict_prefix e e'}"
    using getSelect_mirrors_requested_fields[of ?l] by blast
  have "[''comments'', ''author'', ''email''] \<in> set (leaves (Nested (getSelect ?l)))"
    unfolding s r by simp
  moreover have "[''comments'', ''author''] \<notin> set (leaves (Nested (getSelect ?l)))"
    unfolding s r by simp
  moreover have "getFields [''__typename'', ''title'', ''description'', ''author'', ''author/username'',
              ''author/email'', ''author/comments'', ''author/comments/text'',
              ''author/comments/likes'', ''author/comments/likes/user'',
              ''author/comments/likes/user/username'']
     = [''title'', ''description'', ''author'']"
    by code_simp
  ultimately show ?thesis using v by blast
qed

subsection \<open>Argument normalization\<close>

lemma parseOrderBy_single:
  "list_all (\<lambda>e. length e = 1) l \<Longrightarrow>
   parseOrderBy l = Inr (map (\<lambda>e. (fst (hd e), toLowerCase (snd (hd e)))) l)"
proof (induction l)
  case Nil
  show ?case by simp
next
  case (Cons e l)
  then obtain f d where "e = [(f, d)]"
    by (cases e) (auto simp: length_Suc_conv)
  with Cons show ?case by simp
qed

lemma parseOrderBy_malformed:
  "\<exists>e\<in>set l. length e \<noteq> 1 \<Longrightarrow> parseOrderBy l = Inl MALFORMED_ARGUMENT"
  by (induction l rule: parseOrderBy.induct) (auto split: sum.splits)

lemma paginate_absent:
  "paginate a dp None dflt = Inr (if a = ActList \<and> dp \<noteq> None then Some dflt else None)"
  by (simp add: paginate_def)

lemma paginate_given:
  "toInteger v = Some t \<Longrightarrow> paginate a dp (Some v) dflt = Inr (Some t)"
  by (simp add: paginate_def)

lemma orderBy_stage:
  "singleKeys ob \<Longrightarrow>
   (case ob of None \<Rightarrow> Inr None | Some l \<Rightarrow> map_sum id Some (parseOrderBy l))
     = Inr (map_option (map (\<lambda>e. (fst (hd e), toLowerCase (snd (hd e))))) ob)"
  by (cases ob) (simp_all add: singleKeys_def parseOrderBy_single)

text \<open>
  C7. For the read-many action and arguments otherwise well formed: with a default
  pagination \<open>n\<close> and no \<^verbatim>\<open>take\<close>, normalization gives \<^verbatim>\<open>skip\<close> 0 and \<^verbatim>\<open>take\<close> \<open>n\<close>; with a
  \<^verbatim>\<open>take\<close> given it is kept and \<^verbatim>\<open>skip\<close> is still 0; with the default pagination disabled the
  normalizer sets neither.
\<close>

theorem getArgs_pagination:
  "singleKeys (raw_orderBy raw) \<and> raw_skip raw = None \<longrightarrow>
     (raw_take raw = None \<longrightarrow>
        (\<exists>args. getArgs ActList (Some n) raw = Inr args \<and>
           qa_skip args = Some 0 \<and> qa_take args = Some (int n))) \<and>
     (\<forall>v t. raw_take raw = Some v \<and> toInteger v = Some t \<longrightarrow>
        (\<exists>args. getArgs ActList (Some n) raw = Inr args \<and>
           qa_skip args = Some 0 \<and> qa_take args = Some t)) \<and>
     (raw_take raw = None \<longrightarrow>
        (\<exists>args. getArgs ActList None raw = Inr args \<and>
           qa_skip args = None \<and> qa_take args = None)) \<and>
     (\<forall>v t. raw_take raw = Some v \<and> toInteger v = Some t \<longrightarrow>
        (\<exists>args. getArgs ActList None raw = Inr args \<and>
           qa_skip args = None \<and> qa_take args = Some t))"
  by (auto simp: getArgs_def orderBy_stage paginate_absent paginate_given)

theorem getArgs_pagination_witness:
  "singleKeys (raw_orderBy noArguments) \<and> raw_skip noArguments = None \<and>
   raw_take noArguments = None \<and>
   toInteger (JStr ''3'') = Some 3 \<and>
   (\<exists>args. getArgs ActList (Some 50) noArguments = Inr args \<and>
      qa_skip args = Some 0 \<and> qa_take args = Some 50) \<and>
   (\<exists>args. getArgs ActList (Some 50) (noArguments\<lparr>raw_take := Some (JStr ''3'')\<rparr>) = Inr args \<and>
      qa_skip args = Some 0 \<and> qa_take args = Some 3) \<and>
   (\<exists>args. getArgs ActList None noArguments = Inr args \<and>
      qa_skip args = None \<and> qa_take args = None) \<and>
   (\<exists>args. getArgs ActList None (noArguments\<lparr>raw_take := Some (JStr ''3'')\<rparr>) = Inr args \<and>
      qa_skip args = None \<and> qa_take args = Some 3)"
proof -
  have h1: "singleKeys (raw_orderBy noArguments) \<and> raw_skip noArguments = None"
    by (simp add: noArguments_def singleKeys_def)
  have h2: "singleKeys (raw_orderBy (noArguments\<lparr>raw_take := Some (JStr ''3'')\<rparr>)) \<and>
      raw_skip (noArguments\<lparr>raw_take := Some (JStr ''3'')\<rparr>) = None"
    by (simp add: noArguments_def singleKeys_def)
  have t: "raw_take noArguments = None" by (simp add: noArguments_def)
  have i: "toInteger (JStr ''3'') = Some 3" by (simp add: digitValue_def)
  have t3: "raw_take (noArguments\<lparr>raw_take := Some (JStr ''3'')\<rparr>) = Some (JStr ''3'') \<and>
      toInteger (JStr ''3'') = Some 3"
    using i by simp
  note a = getArgs_pagination[of noArguments 50, THEN mp, OF h1]
  note b = getArgs_pagination[of "noArguments\<lparr>raw_take := Some (JStr ''3'')\<rparr>" 50, THEN mp, OF h2]
  from a[THEN conjunct1, THEN mp, OF t]
    b[THEN conjunct2, THEN conjunct1, THEN spec, THEN spec, THEN mp, OF t3]
    a[THEN conjunct2, THEN conjunct2, THEN conjunct1, THEN mp, OF t]
    b[THEN conjunct2, THEN conjunct2, THEN conjunct2, THEN spec, THEN spec, THEN mp, OF t3]
  show ?thesis using h1 t i by simp
qed

text \<open>
  C9. An ordering list with an entry of more than one key makes normalization fail with
  the malformed-argument error. A list of single-key entries is accepted, the other
  arguments being well formed, and each direction is put in lower case.
\<close>

theorem getArgs_orderBy:
  "((\<exists>e\<in>set l. 1 < length e) \<longrightarrow>
      getArgs a dp (raw\<lparr>raw_orderBy := Some l\<rparr>) = Inl MALFORMED_ARGUMENT) \<and>
   (list_all (\<lambda>e. length e = 1) l \<and> coercible (raw_skip raw) \<and> coercible (raw_take raw) \<longrightarrow>
      (\<exists>args. getArgs a dp (raw\<lparr>raw_orderBy := Some l\<rparr>) = Inr args \<and>
         qa_orderBy args = Some (map (\<lambda>e. (fst (hd e), toLowerCase (snd (hd e)))) l)))"
proof (intro conjI impI)
  assume "\<exists>e\<in>set l. 1 < length e"
  then obtain e where e: "e \<in> set l" "1 < length e" by blast
  then have "length e \<noteq> 1" by simp
  with e have "\<exists>e\<in>set l. length e \<noteq> 1" by blast
  then have "parseOrderBy l = Inl MALFORMED_ARGUMENT" by (rule parseOrderBy_malformed)
  then show "getArgs a dp (raw\<lparr>raw_orderBy := Some l\<rparr>) = Inl MALFORMED_ARGUMENT"
    by (simp add: getArgs_def)
next
  assume h: "list_all (\<lambda>e. length e = 1) l \<and> coercible (raw_skip raw) \<and> coercible (raw_take raw)"
  then have p: "parseOrderBy l = Inr (map (\<lambda>e. (fst (hd e), toLowerCase (snd (hd e)))) l)"
    by (simp add: parseOrderBy_single)
  from h obtain sk where sk: "paginate a dp (raw_skip raw) 0 = Inr sk"
    by (cases "raw_skip raw") (auto simp: coercible_def paginate_def)
  from h obtain tk where tk:
    "paginate a dp (raw_take raw) (case dp of Some n \<Rightarrow> int n | None \<Rightarrow> 0) = Inr tk"
    by (cases "raw_take raw") (auto simp: coercible_def paginate_def)
  show "\<exists>args. getArgs a dp (raw\<lparr>raw_orderBy := Some l\<rparr>) = Inr args \<and>
         qa_orderBy args = Some (map (\<lambda>e. (fst (hd e), toLowerCase (snd (hd e)))) l)"
    by (simp add: getArgs_def p sk tk)
qed

theorem getArgs_orderBy_witness:
  "(\<exists>e\<in>set [[(''title'', ''ASC''), (''content'', ''DESC'')], [(''postedAt'', ''DESC'')]]. 1 < length e) \<and>
   getArgs ActList None
     (noArguments\<lparr>raw_orderBy := Some [[(''title'', ''ASC''), (''content'', ''DESC'')],
                                         [(''postedAt'', ''DESC'')]]\<rparr>)
     = Inl MALFORMED_ARGUMENT \<and>
   list_all (\<lambda>e. length e = 1) [[(''title'', ''ASC'')], [(''postedAt'', ''DESC'')]] \<and>
   coercible (raw_skip noArguments) \<and> coercible (raw_take noArguments) \<and>
   (\<exists>args. getArgs ActList None
        (noArguments\<lparr>raw_orderBy := Some [[(''title'', ''ASC'')], [(''postedAt'', ''DESC'')]]\<rparr>)
        = Inr args \<and>
      qa_orderBy args = Some [(''title'', ''asc''), (''postedAt'', ''desc'')])"
proof -
  have bad: "\<exists>e\<in>set [[(''title'', ''ASC''), (''content'', ''DESC'')], [(''postedAt'', ''DESC'')]].
      1 < length e"
    by simp
  have good: "list_all (\<lambda>e. length e = 1) [[(''title'', ''ASC'')], [(''postedAt'', ''DESC'')]] \<and>
      coercible (raw_skip noArguments) \<and> coercible (raw_take noArguments)"
    by (simp add: coercible_def noArguments_def)
  have lower: "toLowerCase ''ASC'' = ''asc''" "toLowerCase ''DESC'' = ''desc''"
    by code_simp+
  from getArgs_orderBy[where l = "[[(''title'', ''ASC''), (''content'', ''DESC'')], [(''postedAt'', ''DESC'')]]"
        and a = ActList and dp = None and raw = noArguments, THEN conjunct1, THEN mp, OF bad]
    getArgs_orderBy[where l = "[[(''title'', ''ASC'')], [(''postedAt'', ''DESC'')]]"
        and a = ActList and dp = None and raw = noArguments, THEN conjunct2, THEN mp, OF good]
  show ?thesis using bad good by (simp add: lower)
qed

subsection \<open>Path generation\<close>

text \<open>
  C5. For a write action the path list is the write-paths of the data payload followed by
  the read-paths of the select tree, the latter with the list action for a bulk mutation and
  with the get action for a single-record one. A connect sub-object gives the path of the
  relation field and the connect key field, a scalar field the path of the field.
\<close>

theorem getPaths_write_then_read:
  "(isWrite a \<longrightarrow>
      getPaths a m args
        = writePaths a m args
          @ readPaths (if a \<in> {ActCreateMany, ActUpdateMany, ActDeleteMany} then ActList else ActGet)
              m args \<and>
      take (length (writePaths a m args)) (getPaths a m args) = writePaths a m args \<and>
      drop (length (writePaths a m args)) (getPaths a m args)
        = readPaths (if a \<in> {ActCreateMany, ActUpdateMany, ActDeleteMany} then ActList else ActGet)
            m args) \<and>
   (rel \<noteq> ''connect'' \<and> key \<noteq> ''connect'' \<longrightarrow>
      writePaths a m (args\<lparr>qa_data := Some (JObj [(rel, JObj [(''connect'', JObj [(key, JStr v)])])])\<rparr>)
        = [toLowerCase (''/'' @ actionName a @ ''/'' @ m @ ''/'' @ rel @ ''/'' @ key)]) \<and>
   (field \<noteq> ''connect'' \<longrightarrow>
      writePaths a m (args\<lparr>qa_data := Some (JObj [(field, JStr v)])\<rparr>)
        = [toLowerCase (''/'' @ actionName a @ ''/'' @ m @ ''/'' @ field)])"
proof (intro conjI impI)
  have ra: "resultAction a
      = (if a \<in> {ActCreateMany, ActUpdateMany, ActDeleteMany} then ActList else ActGet)"
    by (cases a) (simp_all add: resultAction_def)
  assume "isWrite a"
  then show g: "getPaths a m args
        = writePaths a m args
          @ readPaths (if a \<in> {ActCreateMany, ActUpdateMany, ActDeleteMany} then ActList else ActGet)
              m args"
    unfolding ra[symmetric] by (simp add: getPaths_def)
  show "take (length (writePaths a m args)) (getPaths a m args) = writePaths a m args"
    unfolding g by simp
  show "drop (length (writePaths a m args)) (getPaths a m args)
        = readPaths (if a \<in> {ActCreateMany, ActUpdateMany, ActDeleteMany} then ActList else ActGet)
            m args"
    unfolding g by simp
next
  assume "rel \<noteq> ''connect'' \<and> key \<noteq> ''connect''"
  then show "writePaths a m (args\<lparr>qa_data := Some (JObj [(rel, JObj [(''connect'', JObj [(key, JStr v)])])])\<rparr>)
        = [toLowerCase (''/'' @ actionName a @ ''/'' @ m @ ''/'' @ rel @ ''/'' @ key)]"
    by (simp add: writePaths_def pathString_def)
next
  assume "field \<noteq> ''connect''"
  then show "writePaths a m (args\<lparr>qa_data := Some (JObj [(field, JStr v)])\<rparr>)
        = [toLowerCase (''/'' @ actionName a @ ''/'' @ m @ ''/'' @ field)]"
    by (simp add: writePaths_def pathString_def)
qed

theorem getPaths_write_then_read_witness:
  "isWrite ActUpdate \<and> isWrite ActCreateMany \<and>
   getArgs ActUpdate None
     (noArguments\<lparr>raw_data := qa_data updateTestArgs, raw_selectionSetList := Some testSelection\<rparr>)
     = Inr updateTestArgs \<and>
   getPaths ActUpdate ''Post'' updateTestArgs
     = [''/update/post/title'', ''/update/post/author/username'',
        ''/get/post/title'', ''/get/post/comment/content'', ''/get/post/comment/author/email'',
        ''/get/post/comment/author/username'', ''/get/post/comment/author/badges/label'',
        ''/get/post/comment/author/badges/owners/email''] \<and>
   getPaths ActCreateMany ''Post'' createManyTestArgs
     = [''/createmany/post/title'', ''/createmany/post/author/username'',
        ''/list/post/title'', ''/list/post/comment/content'', ''/list/post/comment/author/email'',
        ''/list/post/comment/author/username'', ''/list/post/comment/author/badges/label'',
        ''/list/post/comment/author/badges/owners/email'']"
proof -
  have w: "isWrite ActUpdate" "isWrite ActCreateMany" by simp_all
  have g: "getArgs ActUpdate None
     (noArguments\<lparr>raw_data := qa_data updateTestArgs, raw_selectionSetList := Some testSelection\<rparr>)
     = Inr updateTestArgs"
    by (simp add: getArgs_def noArguments_def updateTestArgs_def paginate_def)
  have wu: "writePaths ActUpdate ''Post'' updateTestArgs
      = [''/update/post/title'', ''/update/post/author/username'']"
    by code_simp
  have ru: "readPaths ActGet ''Post'' updateTestArgs
      = [''/get/post/title'', ''/get/post/comment/content'', ''/get/post/comment/author/email'',
        ''/get/post/comment/author/username'', ''/get/post/comment/author/badges/label'',
        ''/get/post/comment/author/badges/owners/email'']"
    by code_simp
  have wc: "writePaths ActCreateMany ''Post'' createManyTestArgs
      = [''/createmany/post/title'', ''/createmany/post/author/username'']"
    by code_simp
  have rc: "readPaths ActList ''Post'' createManyTestArgs
      = [''/list/post/title'', ''/list/post/comment/content'', ''/list/post/comment/author/email'',
        ''/list/post/comment/author/username'', ''/list/post/comment/author/badges/label'',
        ''/list/post/comment/author/badges/owners/email'']"
    by code_simp
  from getPaths_write_then_read[where a = ActUpdate and m = "''Post''" and args = updateTestArgs,
      THEN conjunct1, THEN mp, OF w(1), THEN conjunct1]
    getPaths_write_then_read[where a = ActCreateMany and m = "''Post''" and args = createManyTestArgs,
      THEN conjunct1, THEN mp, OF w(2), THEN conjunct1]
  show ?thesis using g by (simp add: wu ru wc rc)
qed

end
